theory Spec2Isabelle
  imports Main "HOL-Library.Word"
begin

section \<open>Asynchronous recursive deletion with GIO (rm-rf-async.c)\<close>

text \<open>
  The program is a set of callbacks run by a single-threaded GLib main loop. The model
  keeps the program's own state (the \<open>AsyncRmContext\<close> structures, the global counter,
  the process status) together with the operations GIO has in flight; one iteration of the
  main loop delivers the completion of one of them, in any order, and runs the callback the
  program registered for it to its end.
\<close>

subsection \<open>The directory tree and what GIO reports about it\<close>

datatype file_type =
    G_FILE_TYPE_UNKNOWN
  | G_FILE_TYPE_REGULAR
  | G_FILE_TYPE_DIRECTORY
  | G_FILE_TYPE_SYMBOLIC_LINK
  | G_FILE_TYPE_SPECIAL
  | G_FILE_TYPE_SHORTCUT
  | G_FILE_TYPE_MOUNTABLE

datatype query_flags = G_FILE_QUERY_INFO_NONE | G_FILE_QUERY_INFO_NOFOLLOW_SYMLINKS

text \<open>
  What lies at the path given to the program. A symbolic link holds what it points to
  (\<open>None\<close> when it dangles); the file it points to is not an entry of the tree.
\<close>

datatype node =
    Regular string
  | Special string
  | Symlink string "node option"
  | Dir string "node list"

fun node_name :: "node \<Rightarrow> string" where
  "node_name (Regular n) = n"
| "node_name (Special n) = n"
| "node_name (Symlink n t) = n"
| "node_name (Dir n cs) = n"

fun is_dir :: "node \<Rightarrow> bool" where
  "is_dir (Dir n cs) = True"
| "is_dir x = False"

fun children :: "node \<Rightarrow> node list" where
  "children (Dir n cs) = cs"
| "children x = []"

text \<open>The number of filesystem entries of a tree: every file and every directory, the root included.\<close>

fun tree_size :: "node \<Rightarrow> nat" and forest_size :: "node list \<Rightarrow> nat" where
  "tree_size (Regular n) = 1"
| "tree_size (Special n) = 1"
| "tree_size (Symlink n t) = 1"
| "tree_size (Dir n cs) = Suc (forest_size cs)"
| "forest_size [] = 0"
| "forest_size (c # cs) = tree_size c + forest_size cs"

text \<open>A directory holds no two entries of the same name.\<close>

fun wf_node :: "node \<Rightarrow> bool" and wf_forest :: "node list \<Rightarrow> bool" where
  "wf_node (Regular n) = True"
| "wf_node (Special n) = True"
| "wf_node (Symlink n None) = True"
| "wf_node (Symlink n (Some t)) = wf_node t"
| "wf_node (Dir n cs) = (distinct (map node_name cs) \<and> wf_forest cs)"
| "wf_forest [] = True"
| "wf_forest (c # cs) = (wf_node c \<and> wf_forest cs)"

text \<open>
  Resolving a path, given as the list of names below the root. A symbolic link in the middle
  of a path is followed, the last name of a path is not.
\<close>

fun lookup :: "node \<Rightarrow> string list \<Rightarrow> node option"
  and lookup_in :: "node list \<Rightarrow> string \<Rightarrow> string list \<Rightarrow> node option" where
  "lookup n [] = Some n"
| "lookup (Dir d cs) (x # xs) = lookup_in cs x xs"
| "lookup (Regular n) (x # xs) = None"
| "lookup (Special n) (x # xs) = None"
| "lookup (Symlink n None) (x # xs) = None"
| "lookup (Symlink n (Some t)) (x # xs) = lookup t (x # xs)"
| "lookup_in [] x xs = None"
| "lookup_in (c # cs) x xs = (if node_name c = x then lookup c xs else lookup_in cs x xs)"

text \<open>A \<open>GFile\<close>: the path it was made for (\<open>None\<close> is \<open>NULL\<close>) and the names below it.\<close>

datatype gfile = GFile "string option" "string list"

fun rel :: "gfile \<Rightarrow> string list" where
  "rel (GFile b r) = r"

fun base :: "gfile \<Rightarrow> string option" where
  "base (GFile b r) = b"

definition g_file_new_for_path :: "string option \<Rightarrow> gfile" where
  "g_file_new_for_path p = GFile p []"

fun g_file_get_child :: "gfile \<Rightarrow> string \<Rightarrow> gfile" where
  "g_file_get_child (GFile b r) name = GFile b (r @ [name])"

text \<open>A \<open>GFileInfo\<close> with the attributes \<open>standard::name\<close> and \<open>standard::type\<close>.\<close>

record gfile_info =
  info_name :: string
  info_type :: file_type

definition g_file_info_get_name :: "gfile_info \<Rightarrow> string" where
  "g_file_info_get_name i = info_name i"

definition g_file_info_get_file_type :: "gfile_info \<Rightarrow> file_type" where
  "g_file_info_get_file_type i = info_type i"

fun node_type :: "query_flags \<Rightarrow> node \<Rightarrow> file_type" where
  "node_type fl (Regular n) = G_FILE_TYPE_REGULAR"
| "node_type fl (Special n) = G_FILE_TYPE_SPECIAL"
| "node_type fl (Symlink n None) = G_FILE_TYPE_SYMBOLIC_LINK"
| "node_type fl (Symlink n (Some t)) =
     (if fl = G_FILE_QUERY_INFO_NOFOLLOW_SYMLINKS then G_FILE_TYPE_SYMBOLIC_LINK
      else node_type fl t)"
| "node_type fl (Dir n cs) = G_FILE_TYPE_DIRECTORY"

definition query_info :: "query_flags \<Rightarrow> node \<Rightarrow> gfile_info" where
  "query_info fl n = \<lparr>info_name = node_name n, info_type = node_type fl n\<rparr>"

text \<open>A \<open>GFileEnumerator\<close>: the directory it lists and the entries it has not returned yet.\<close>

record genumerator =
  container :: gfile
  remaining :: "gfile_info list"

definition g_file_enumerator_get_container :: "genumerator \<Rightarrow> gfile" where
  "g_file_enumerator_get_container e = container e"

subsection \<open>The program's data\<close>

type_synonym guint = "32 word"

text \<open>
  The callback given to \<open>rm_rf_async\<close> with its \<open>user_data\<close>: \<open>on_rm_rf_complete\<close> with
  the context of the parent directory, or \<open>on_rm_finished\<close> with the main loop.
\<close>

datatype ready_callback = On_rm_rf_complete nat | On_rm_finished

text \<open>
  The \<open>GSimpleAsyncResult\<close> of a context. \<open>res_error\<close> is the error that
  \<open>g_simple_async_result_propagate_error\<close> would hand over.
\<close>

record simple_async_result =
  source_object :: gfile
  callback :: ready_callback
  res_error :: "string option"

record AsyncRmContext =
  priority :: int
  cancellable :: "nat option"
  num_files_pending :: guint
  have_more_files :: bool
  ctx_file :: gfile
  result :: simple_async_result

text \<open>The two callbacks the program gives to \<open>g_file_delete_async\<close>.\<close>

datatype delete_callback = On_file_deleted | On_end_directory_deleted

text \<open>
  An operation handed to GIO and not completed yet, with the arguments of the call; the last
  argument is the \<open>user_data\<close>, the index of an \<open>AsyncRmContext\<close>.
\<close>

datatype async_op =
    Enumerate_children gfile string query_flags int "nat option" nat
  | Next_files genumerator nat int "nat option" nat
  | Delete_file gfile int "nat option" delete_callback nat

text \<open>
  What the program did, most recent first: the operations it issued, the completions it was
  given (with the error message, if any), and its own steps on a context.
\<close>

datatype event =
    Issue async_op
  | Done async_op "string option"
  | Closed genumerator
  | Complete nat
  | Incr nat
  | Decr nat

datatype out_line = Files_deleted guint

record state =
  heap :: "AsyncRmContext option list"
  pending :: "async_op list"
  files_deleted :: guint
  loop_running :: bool
  timer :: bool
  stdout :: "out_line list"
  stderr :: "string list"
  exit_status :: "int option"
  fault :: bool
  trace :: "event list"

definition G_PRIORITY_DEFAULT :: int where
  "G_PRIORITY_DEFAULT = 0"

definition init_state :: state where
  "init_state = \<lparr>heap = [], pending = [], files_deleted = 0, loop_running = True,
     timer = False, stdout = [], stderr = [], exit_status = None, fault = False, trace = []\<rparr>"

definition emit :: "event \<Rightarrow> state \<Rightarrow> state" where
  "emit e s = s\<lparr>trace := e # trace s\<rparr>"

text \<open>Reading a context through its pointer; a freed context reads as \<open>None\<close>.\<close>

definition ctx_at :: "state \<Rightarrow> nat \<Rightarrow> AsyncRmContext option" where
  "ctx_at s c = (if c < length (heap s) then heap s ! c else None)"

definition modify :: "nat \<Rightarrow> (AsyncRmContext \<Rightarrow> AsyncRmContext) \<Rightarrow> state \<Rightarrow> state" where
  "modify c f s = (if c < length (heap s) then s\<lparr>heap := (heap s)[c := map_option f (heap s ! c)]\<rparr> else s)"

definition use_after_free :: "state \<Rightarrow> state" where
  "use_after_free s = s\<lparr>fault := True\<rparr>"

subsection \<open>The calls into GIO\<close>

definition issue :: "async_op \<Rightarrow> state \<Rightarrow> state" where
  "issue op s = emit (Issue op) (s\<lparr>pending := pending s @ [op]\<rparr>)"

definition g_file_enumerate_children_async ::
  "gfile \<Rightarrow> string \<Rightarrow> query_flags \<Rightarrow> int \<Rightarrow> nat option \<Rightarrow> nat \<Rightarrow> state \<Rightarrow> state" where
  "g_file_enumerate_children_async f attrs fl prio canc data s =
     issue (Enumerate_children f attrs fl prio canc data) s"

definition g_file_enumerator_next_files_async ::
  "genumerator \<Rightarrow> nat \<Rightarrow> int \<Rightarrow> nat option \<Rightarrow> nat \<Rightarrow> state \<Rightarrow> state" where
  "g_file_enumerator_next_files_async e num prio canc data s =
     issue (Next_files e num prio canc data) s"

definition g_file_delete_async ::
  "gfile \<Rightarrow> int \<Rightarrow> nat option \<Rightarrow> delete_callback \<Rightarrow> nat \<Rightarrow> state \<Rightarrow> state" where
  "g_file_delete_async f prio canc cb data s = issue (Delete_file f prio canc cb data) s"

definition g_file_enumerator_close :: "genumerator \<Rightarrow> state \<Rightarrow> state" where
  "g_file_enumerator_close e s = emit (Closed e) s"

subsection \<open>The program\<close>

definition fatal_gerror :: "string \<Rightarrow> state \<Rightarrow> state" where
  "fatal_gerror msg s = s\<lparr>stderr := stderr s @ [msg], exit_status := Some 1\<rparr>"

definition rm_rf_finish :: "simple_async_result \<Rightarrow> string + unit" where
  "rm_rf_finish simple = (case res_error simple of Some e \<Rightarrow> Inl e | None \<Rightarrow> Inr ())"

definition check_no_children :: "nat \<Rightarrow> state \<Rightarrow> state" where
  "check_no_children c s =
     (case ctx_at s c of
        None \<Rightarrow> use_after_free s
      | Some d \<Rightarrow>
          if num_files_pending d = 0 \<and> \<not> have_more_files d
          then g_file_delete_async (ctx_file d) (priority d) (cancellable d)
                 On_end_directory_deleted c s
          else s)"

definition on_file_deleted :: "nat \<Rightarrow> string option \<Rightarrow> state \<Rightarrow> state" where
  "on_file_deleted c res s =
     (case ctx_at s c of
        None \<Rightarrow> use_after_free s
      | Some d \<Rightarrow>
          (case res of
             Some msg \<Rightarrow> fatal_gerror msg s
           | None \<Rightarrow>
               check_no_children c
                 (emit (Decr c)
                   (modify c (\<lambda>x. x\<lparr>num_files_pending := num_files_pending x - 1\<rparr>)
                     (s\<lparr>files_deleted := files_deleted s + 1\<rparr>)))))"

definition on_rm_rf_complete :: "simple_async_result \<Rightarrow> nat \<Rightarrow> state \<Rightarrow> state" where
  "on_rm_rf_complete res p s =
     (case ctx_at s p of
        None \<Rightarrow> use_after_free s
      | Some d \<Rightarrow>
          (case rm_rf_finish res of
             Inl msg \<Rightarrow> fatal_gerror msg s
           | Inr u \<Rightarrow>
               check_no_children p
                 (emit (Decr p)
                   (modify p (\<lambda>x. x\<lparr>num_files_pending := num_files_pending x - 1\<rparr>) s))))"

definition g_main_loop_quit :: "state \<Rightarrow> state" where
  "g_main_loop_quit s = s\<lparr>loop_running := False\<rparr>"

definition on_rm_finished :: "simple_async_result \<Rightarrow> state \<Rightarrow> state" where
  "on_rm_finished res s =
     (case rm_rf_finish res of
        Inl msg \<Rightarrow> fatal_gerror msg s
      | Inr u \<Rightarrow> g_main_loop_quit s)"

text \<open>\<open>g_simple_async_result_complete\<close> calls the callback of the result at once.\<close>

definition g_simple_async_result_complete :: "simple_async_result \<Rightarrow> state \<Rightarrow> state" where
  "g_simple_async_result_complete res s =
     (case callback res of
        On_rm_rf_complete p \<Rightarrow> on_rm_rf_complete res p s
      | On_rm_finished \<Rightarrow> on_rm_finished res s)"

definition g_free :: "nat \<Rightarrow> state \<Rightarrow> state" where
  "g_free c s = (if c < length (heap s) then s\<lparr>heap := (heap s)[c := None]\<rparr> else s)"

definition on_end_directory_deleted :: "nat \<Rightarrow> string option \<Rightarrow> state \<Rightarrow> state" where
  "on_end_directory_deleted c res s =
     (case ctx_at s c of
        None \<Rightarrow> use_after_free s
      | Some d \<Rightarrow>
          (case res of
             Some msg \<Rightarrow> fatal_gerror msg s
           | None \<Rightarrow>
               (let s1 = g_simple_async_result_complete (result d)
                           (emit (Complete c) (s\<lparr>files_deleted := files_deleted s + 1\<rparr>))
                in if exit_status s1 = None \<and> \<not> fault s1 then g_free c s1 else s1)))"

definition rm_rf_async ::
  "gfile \<Rightarrow> int \<Rightarrow> nat option \<Rightarrow> ready_callback \<Rightarrow> state \<Rightarrow> state" where
  "rm_rf_async f io_priority canc cb s =
     (let data = length (heap s);
          d = \<lparr>priority = io_priority, cancellable = canc, num_files_pending = 0,
               have_more_files = False, ctx_file = f,
               result = \<lparr>source_object = f, callback = cb, res_error = None\<rparr>\<rparr>
      in g_file_enumerate_children_async f ''standard::name,standard::type''
           G_FILE_QUERY_INFO_NOFOLLOW_SYMLINKS io_priority canc data
           (s\<lparr>heap := heap s @ [Some d]\<rparr>))"

text \<open>The body of the \<open>for\<close> loop of \<open>on_next_files\<close>.\<close>

definition dispatch_entry :: "nat \<Rightarrow> gfile \<Rightarrow> state \<Rightarrow> gfile_info \<Rightarrow> state" where
  "dispatch_entry c parent s file_info =
     (case ctx_at s c of
        None \<Rightarrow> use_after_free s
      | Some d \<Rightarrow>
          (let f = g_file_get_child parent (g_file_info_get_name file_info);
               s1 = emit (Incr c)
                      (modify c (\<lambda>x. x\<lparr>num_files_pending := num_files_pending x + 1\<rparr>) s)
           in if g_file_info_get_file_type file_info = G_FILE_TYPE_DIRECTORY
              then rm_rf_async f (priority d) (cancellable d) (On_rm_rf_complete c) s1
              else g_file_delete_async f (priority d) None On_file_deleted c s1))"

text \<open>
  The first half of \<open>on_next_files\<close>, up to the loop: a batch with entries asks for
  the next batch at once, an empty batch closes the listing and checks the context.
\<close>

definition next_files_head :: "genumerator \<Rightarrow> gfile_info list \<Rightarrow> nat \<Rightarrow> state \<Rightarrow> state" where
  "next_files_head enumerator files c s =
     (if files \<noteq> []
      then g_file_enumerator_next_files_async enumerator 20 G_PRIORITY_DEFAULT None c
             (modify c (\<lambda>x. x\<lparr>have_more_files := True\<rparr>) s)
      else check_no_children c
             (g_file_enumerator_close enumerator
               (modify c (\<lambda>x. x\<lparr>have_more_files := False\<rparr>) s)))"

definition on_next_files ::
  "genumerator \<Rightarrow> string + gfile_info list \<Rightarrow> nat \<Rightarrow> state \<Rightarrow> state" where
  "on_next_files enumerator res c s =
     (case ctx_at s c of
        None \<Rightarrow> use_after_free s
      | Some d \<Rightarrow>
          (case res of
             Inl msg \<Rightarrow> fatal_gerror msg s
           | Inr files \<Rightarrow>
               foldl (dispatch_entry c (g_file_enumerator_get_container enumerator))
                 (next_files_head enumerator files c s) files))"

definition on_enumerate_children :: "string + genumerator \<Rightarrow> nat \<Rightarrow> state \<Rightarrow> state" where
  "on_enumerate_children res c s =
     (case ctx_at s c of
        None \<Rightarrow> use_after_free s
      | Some d \<Rightarrow>
          (case res of
             Inl msg \<Rightarrow> fatal_gerror msg s
           | Inr enumerator \<Rightarrow>
               g_file_enumerator_next_files_async enumerator 20 (priority d) (cancellable d) c s))"

text \<open>\<open>print_progress\<close> returns \<open>FALSE\<close>.\<close>

definition print_progress :: "state \<Rightarrow> bool \<times> state" where
  "print_progress s = (False, s\<lparr>stdout := stdout s @ [Files_deleted (files_deleted s)]\<rparr>)"

definition g_timeout_add_seconds :: "nat \<Rightarrow> state \<Rightarrow> state" where
  "g_timeout_add_seconds interval s = s\<lparr>timer := True\<rparr>"

subsection \<open>The main loop\<close>

text \<open>
  An iteration of the main loop delivers the completion of the \<open>i\<close>-th operation in flight,
  with an error message or with success, or fires the timeout source. GIO can fail any
  operation. It lists a directory, also through a symbolic link given as the path of the
  listing: \<open>G_FILE_QUERY_INFO_NOFOLLOW_SYMLINKS\<close> only decides what is reported for the
  entries. An operation on a \<open>NULL\<close> file is refused when it is called
  (\<open>g_return_if_fail (G_IS_FILE (file))\<close>): it is never started and its callback is never
  called.
\<close>

datatype loop_event = Ready nat "string option" | Timeout

fun follow :: "node \<Rightarrow> node option" where
  "follow (Symlink n None) = None"
| "follow (Symlink n (Some t)) = follow t"
| "follow nd = Some nd"

fun list_dir :: "node \<Rightarrow> gfile \<Rightarrow> query_flags \<Rightarrow> gfile_info list option" where
  "list_dir fs f fl =
     (case lookup fs (rel f) of
        None \<Rightarrow> None
      | Some nd \<Rightarrow>
          (case follow nd of
             Some (Dir n cs) \<Rightarrow> Some (map (query_info fl) cs)
           | _ \<Rightarrow> None))"

fun op_file :: "async_op \<Rightarrow> gfile" where
  "op_file (Enumerate_children f attrs fl prio canc c) = f"
| "op_file (Next_files e num prio canc c) = container e"
| "op_file (Delete_file f prio canc cb c) = f"

fun possible :: "node \<Rightarrow> async_op \<Rightarrow> string option \<Rightarrow> bool" where
  "possible fs (Enumerate_children f attrs fl prio canc c) None =
     (base f \<noteq> None \<and> list_dir fs f fl \<noteq> None)"
| "possible fs op r = (base (op_file op) \<noteq> None)"

fun complete :: "node \<Rightarrow> async_op \<Rightarrow> string option \<Rightarrow> state \<Rightarrow> state" where
  "complete fs (Enumerate_children f attrs fl prio canc c) r s =
     (case r of
        Some msg \<Rightarrow> on_enumerate_children (Inl msg) c s
      | None \<Rightarrow>
          (case list_dir fs f fl of
             None \<Rightarrow> s
           | Some infos \<Rightarrow>
               on_enumerate_children (Inr \<lparr>container = f, remaining = infos\<rparr>) c s))"
| "complete fs (Next_files e num prio canc c) r s =
     (case r of
        Some msg \<Rightarrow> on_next_files e (Inl msg) c s
      | None \<Rightarrow>
          on_next_files (e\<lparr>remaining := drop num (remaining e)\<rparr>)
            (Inr (take num (remaining e))) c s)"
| "complete fs (Delete_file f prio canc cb c) r s =
     (case cb of
        On_file_deleted \<Rightarrow> on_file_deleted c r s
      | On_end_directory_deleted \<Rightarrow> on_end_directory_deleted c r s)"

text \<open>
  The timeout source calls \<open>print_progress\<close> and stays attached only if the callback
  returns \<open>TRUE\<close>.
\<close>

definition fire_timeout :: "state \<Rightarrow> state" where
  "fire_timeout s =
     (if timer s then (case print_progress s of (again, s') \<Rightarrow> s'\<lparr>timer := again\<rparr>) else s)"

fun iteration :: "node \<Rightarrow> loop_event \<Rightarrow> state \<Rightarrow> state" where
  "iteration fs (Ready i r) s =
     (if i < length (pending s) \<and> possible fs (pending s ! i) r
      then complete fs (pending s ! i) r
             (emit (Done (pending s ! i) r)
               (s\<lparr>pending := take i (pending s) @ drop (Suc i) (pending s)\<rparr>))
      else s)"
| "iteration fs Timeout s = fire_timeout s"

definition running :: "state \<Rightarrow> bool" where
  "running s = (exit_status s = None \<and> \<not> fault s \<and> loop_running s)"

definition step :: "node \<Rightarrow> state \<Rightarrow> loop_event \<Rightarrow> state" where
  "step fs s e = (if running s then iteration fs e s else s)"

text \<open>\<open>g_main_loop_run\<close> on the events the loop is given.\<close>

definition g_main_loop_run :: "node \<Rightarrow> loop_event list \<Rightarrow> state \<Rightarrow> state" where
  "g_main_loop_run fs evs s = foldl (step fs) s evs"

text \<open>
  \<open>main\<close> up to the call of \<open>g_main_loop_run\<close>, for any path, priority and cancellable
  given to \<open>rm_rf_async\<close>; \<open>main\<close> itself gives \<open>argv[1]\<close>, \<open>G_PRIORITY_DEFAULT\<close> and \<open>NULL\<close>.
\<close>

definition launch :: "string option \<Rightarrow> int \<Rightarrow> nat option \<Rightarrow> state" where
  "launch p prio canc =
     g_timeout_add_seconds 1
       (rm_rf_async (g_file_new_for_path p) prio canc On_rm_finished init_state)"

text \<open>\<open>argv[argc]\<close> is \<open>NULL\<close>; with an empty \<open>argv\<close> the read of \<open>argv[1]\<close> is out of bounds.\<close>

definition argv_at :: "string list \<Rightarrow> nat \<Rightarrow> string option" where
  "argv_at argv i = (if i < length argv then Some (argv ! i) else None)"

definition main_start :: "string list \<Rightarrow> state" where
  "main_start argv =
     (if argv = [] then use_after_free init_state
      else launch (argv_at argv 1) G_PRIORITY_DEFAULT None)"

text \<open>\<open>main\<close> after \<open>g_main_loop_run\<close> has returned: the last \<open>print_progress\<close> and \<open>return 0\<close>.\<close>

definition main_finish :: "state \<Rightarrow> state" where
  "main_finish s =
     (if exit_status s = None \<and> \<not> fault s \<and> \<not> loop_running s
      then (snd (print_progress s))\<lparr>exit_status := Some 0\<rparr>
      else s)"

definition main :: "node \<Rightarrow> string list \<Rightarrow> loop_event list \<Rightarrow> state" where
  "main fs argv evs = main_finish (g_main_loop_run fs evs (main_start argv))"


section \<open>The same deletion as a gjs script (rm-rf-async.js)\<close>

text \<open>
  The script calls the same GIO operations, always with priority 0 and no cancellable. It
  keeps two counters: \<open>numFilesDeleted\<close>, which \<open>onFileDeleted\<close> increments, and
  \<open>numDirsDeleted\<close>, which \<open>onRmRfComplete\<close> increments, that is the callback a child
  directory's context calls in its parent; \<open>onEndDirectoryDeleted\<close> counts nothing, and the
  callback of the top-level context only quits the loop. A context is a JavaScript object,
  which is never freed while it is referred to. The \<open>_finish\<close> call of a failed operation
  throws; gjs logs an exception that leaves a callback and the main loop goes on. The
  counters are JavaScript numbers, exact for every count below \<open>2^53\<close>: they are natural
  numbers here. The script has no timeout source.
\<close>

datatype js_callback = Loop_quit | OnRmRfComplete nat

record js_context =
  numFilesPending :: int
  path :: gfile
  callback_js :: js_callback
  haveMoreFiles :: bool

record js_state =
  js_heap :: "js_context list"
  js_pending :: "async_op list"
  numFilesDeleted :: nat
  numDirsDeleted :: nat
  js_loop_running :: bool
  js_uncaught :: "string list"


definition js_modify :: "nat \<Rightarrow> (js_context \<Rightarrow> js_context) \<Rightarrow> js_state \<Rightarrow> js_state" where
  "js_modify c f s =
     (if c < length (js_heap s) then s\<lparr>js_heap := (js_heap s)[c := f (js_heap s ! c)]\<rparr> else s)"

definition js_issue :: "async_op \<Rightarrow> js_state \<Rightarrow> js_state" where
  "js_issue op s = s\<lparr>js_pending := js_pending s @ [op]\<rparr>"


definition checkNoChildren :: "nat \<Rightarrow> js_state \<Rightarrow> js_state" where
  "checkNoChildren c s =
     (if c < length (js_heap s) \<and> numFilesPending (js_heap s ! c) = 0 \<and>
         \<not> haveMoreFiles (js_heap s ! c)
      then js_issue (Delete_file (path (js_heap s ! c)) 0 None On_end_directory_deleted c) s
      else s)"




definition rmRfAsync :: "gfile \<Rightarrow> js_callback \<Rightarrow> js_state \<Rightarrow> js_state" where
  "rmRfAsync f cb s =
     js_issue
       (Enumerate_children f ''standard::name,standard::type''
          G_FILE_QUERY_INFO_NOFOLLOW_SYMLINKS 0 None (length (js_heap s)))
       (s\<lparr>js_heap := js_heap s @
          [\<lparr>numFilesPending = 0, path = f, callback_js = cb, haveMoreFiles = False\<rparr>]\<rparr>)"

text \<open>The body of the \<open>for\<close> loop of \<open>onNextFiles\<close>.\<close>

definition js_dispatch :: "nat \<Rightarrow> gfile \<Rightarrow> js_state \<Rightarrow> gfile_info \<Rightarrow> js_state" where
  "js_dispatch c parent s fileInfo =
     (let f = g_file_get_child parent (g_file_info_get_name fileInfo);
          s1 = js_modify c (\<lambda>x. x\<lparr>numFilesPending := numFilesPending x + 1\<rparr>) s
      in if g_file_info_get_file_type fileInfo = G_FILE_TYPE_DIRECTORY
         then rmRfAsync f (OnRmRfComplete c) s1
         else js_issue (Delete_file f 0 None On_file_deleted c) s1)"









section \<open>Notions used in the proofs\<close>

fun op_ctx :: "async_op \<Rightarrow> nat" where
  "op_ctx (Enumerate_children f attrs fl prio canc c) = c"
| "op_ctx (Next_files e num prio canc c) = c"
| "op_ctx (Delete_file f prio canc cb c) = c"

datatype op_kind = Listing | Leaf_delete | Dir_delete

fun kind_of :: "async_op \<Rightarrow> op_kind" where
  "kind_of (Enumerate_children f attrs fl prio canc c) = Listing"
| "kind_of (Next_files e num prio canc c) = Listing"
| "kind_of (Delete_file f prio canc On_file_deleted c) = Leaf_delete"
| "kind_of (Delete_file f prio canc On_end_directory_deleted c) = Dir_delete"

definition nops :: "async_op list \<Rightarrow> op_kind \<Rightarrow> nat \<Rightarrow> nat" where
  "nops ops k c = length (filter (\<lambda>op. kind_of op = k \<and> op_ctx op = c) ops)"

fun is_kid :: "nat \<Rightarrow> AsyncRmContext option \<Rightarrow> bool" where
  "is_kid p None = False"
| "is_kid p (Some d) = (callback (result d) = On_rm_rf_complete p)"

definition kids :: "state \<Rightarrow> nat \<Rightarrow> nat" where
  "kids s p = length (filter (is_kid p) (heap s))"

definition live :: "state \<Rightarrow> nat" where
  "live s = length (filter (\<lambda>x. x \<noteq> None) (heap s))"

definition size_at :: "node \<Rightarrow> string list \<Rightarrow> nat" where
  "size_at fs p = (case lookup fs p of None \<Rightarrow> 0 | Some n \<Rightarrow> tree_size n)"

fun weight :: "node \<Rightarrow> async_op \<Rightarrow> nat" where
  "weight fs (Enumerate_children f attrs fl prio canc c) = size_at fs (rel f) - 1"
| "weight fs (Next_files e num prio canc c) =
     sum_list (map (\<lambda>i. size_at fs (rel (container e) @ [info_name i])) (remaining e))"
| "weight fs (Delete_file f prio canc On_file_deleted c) = 1"
| "weight fs (Delete_file f prio canc On_end_directory_deleted c) = 0"

definition todo :: "node \<Rightarrow> state \<Rightarrow> nat" where
  "todo fs s = live s + sum_list (map (weight fs) (pending s))"

definition entry_ok :: "node \<Rightarrow> gfile \<Rightarrow> gfile_info \<Rightarrow> bool" where
  "entry_ok fs parent i =
     (case lookup fs (rel parent @ [info_name i]) of
        None \<Rightarrow> False
      | Some nd \<Rightarrow> query_info G_FILE_QUERY_INFO_NOFOLLOW_SYMLINKS nd = i)"

fun is_dir_at :: "node \<Rightarrow> string list \<Rightarrow> bool" where
  "is_dir_at fs p = (case lookup fs p of None \<Rightarrow> False | Some nd \<Rightarrow> is_dir nd)"

fun op_shape :: "node \<Rightarrow> async_op \<Rightarrow> bool" where
  "op_shape fs (Enumerate_children f attrs fl prio canc c) =
     (fl = G_FILE_QUERY_INFO_NOFOLLOW_SYMLINKS \<and> is_dir_at fs (rel f))"
| "op_shape fs (Next_files e num prio canc c) =
     (0 < num \<and> (\<forall>i\<in>set (remaining e). entry_ok fs (container e) i))"
| "op_shape fs (Delete_file f prio canc cb c) = True"

definition op_ok :: "node \<Rightarrow> state \<Rightarrow> async_op \<Rightarrow> bool" where
  "op_ok fs s op = (ctx_at s (op_ctx op) \<noteq> None \<and> op_shape fs op)"

fun sink_ok :: "state \<Rightarrow> nat \<Rightarrow> ready_callback \<Rightarrow> bool" where
  "sink_ok s c On_rm_finished = (c = 0)"
| "sink_ok s c (On_rm_rf_complete p) = (p < c \<and> ctx_at s p \<noteq> None)"

text \<open>
  The life of a context: its listing is in flight; or the listing is closed and children
  are outstanding; or the delete of its own directory is in flight.
\<close>

definition listing_phase :: "nat \<Rightarrow> nat \<Rightarrow> AsyncRmContext \<Rightarrow> bool" where
  "listing_phase L D d = (L = Suc 0 \<and> D = 0 \<and> (have_more_files d \<or> num_files_pending d = 0))"

definition waiting_phase :: "nat \<Rightarrow> nat \<Rightarrow> AsyncRmContext \<Rightarrow> bool" where
  "waiting_phase L D d = (L = 0 \<and> D = 0 \<and> num_files_pending d \<noteq> 0 \<and> \<not> have_more_files d)"

definition deleting_phase :: "nat \<Rightarrow> nat \<Rightarrow> AsyncRmContext \<Rightarrow> bool" where
  "deleting_phase L D d = (L = 0 \<and> D = Suc 0 \<and> num_files_pending d = 0 \<and> \<not> have_more_files d)"

definition unchecked_phase :: "nat \<Rightarrow> nat \<Rightarrow> AsyncRmContext \<Rightarrow> bool" where
  "unchecked_phase L D d = (D = 0 \<and> (if have_more_files d then L = Suc 0 else L = 0))"

definition ctx_base :: "state \<Rightarrow> nat \<Rightarrow> AsyncRmContext \<Rightarrow> bool" where
  "ctx_base s c d =
     (unat (num_files_pending d) = nops (pending s) Leaf_delete c + kids s c \<and>
      res_error (result d) = None \<and>
      sink_ok s c (callback (result d)))"

definition ctx_phase :: "state \<Rightarrow> nat \<Rightarrow> AsyncRmContext \<Rightarrow> bool" where
  "ctx_phase s c d =
     (listing_phase (nops (pending s) Listing c) (nops (pending s) Dir_delete c) d \<or>
      waiting_phase (nops (pending s) Listing c) (nops (pending s) Dir_delete c) d \<or>
      deleting_phase (nops (pending s) Listing c) (nops (pending s) Dir_delete c) d)"

definition globals_ok :: "node \<Rightarrow> nat \<Rightarrow> state \<Rightarrow> bool" where
  "globals_ok fs k s =
     (\<not> fault s \<and> exit_status s = None \<and>
      (\<forall>op\<in>set (pending s). op_ok fs s op) \<and>
      unat (files_deleted s) + todo fs s + k = tree_size fs \<and>
      (loop_running s \<longleftrightarrow> ctx_at s 0 \<noteq> None))"

definition sound :: "node \<Rightarrow> nat \<Rightarrow> state \<Rightarrow> bool" where
  "sound fs k s =
     (globals_ok fs k s \<and>
      (\<forall>c d. ctx_at s c = Some d \<longrightarrow> ctx_base s c d \<and> ctx_phase s c d))"

definition awaiting_check :: "node \<Rightarrow> nat \<Rightarrow> nat \<Rightarrow> state \<Rightarrow> bool" where
  "awaiting_check fs k c0 s =
     (globals_ok fs k s \<and>
      (\<forall>c d. ctx_at s c = Some d \<longrightarrow> ctx_base s c d \<and> (c \<noteq> c0 \<longrightarrow> ctx_phase s c d)) \<and>
      (\<exists>d. ctx_at s c0 = Some d \<and>
           unchecked_phase (nops (pending s) Listing c0) (nops (pending s) Dir_delete c0) d))"

definition fresh_ctx :: "gfile \<Rightarrow> int \<Rightarrow> nat option \<Rightarrow> ready_callback \<Rightarrow> AsyncRmContext" where
  "fresh_ctx f prio canc cb =
     \<lparr>priority = prio, cancellable = canc, num_files_pending = 0, have_more_files = False,
      ctx_file = f, result = \<lparr>source_object = f, callback = cb, res_error = None\<rparr>\<rparr>"

definition first_listing :: "gfile \<Rightarrow> int \<Rightarrow> nat option \<Rightarrow> nat \<Rightarrow> async_op" where
  "first_listing f prio canc c =
     Enumerate_children f ''standard::name,standard::type'' G_FILE_QUERY_INFO_NOFOLLOW_SYMLINKS
       prio canc c"


fun dir_issue_of :: "event \<Rightarrow> nat option" where
  "dir_issue_of (Issue (Delete_file f p k On_end_directory_deleted c)) = Some c"
| "dir_issue_of ev = None"

definition dir_issues :: "nat \<Rightarrow> event list \<Rightarrow> nat" where
  "dir_issues c tr = length (filter (\<lambda>ev. dir_issue_of ev = Some c) tr)"

fun dir_done :: "nat \<Rightarrow> event \<Rightarrow> bool" where
  "dir_done c (Done (Delete_file f p k On_end_directory_deleted c') None) = (c' = c)"
| "dir_done c ev = False"

fun deletes_path :: "gfile \<Rightarrow> event \<Rightarrow> bool" where
  "deletes_path f (Done (Delete_file f' p k cb c) None) = (f' = f)"
| "deletes_path f ev = False"

definition deleted :: "gfile \<Rightarrow> event list \<Rightarrow> bool" where
  "deleted f tr = (\<exists>ev\<in>set tr. deletes_path f ev)"

text \<open>The entries a completion hands to \<open>on_next_files\<close> for context \<open>c\<close>, as files.\<close>

fun seen :: "nat \<Rightarrow> event \<Rightarrow> gfile list" where
  "seen c (Done (Next_files e n p k c') None) =
     (if c' = c
      then map (\<lambda>i. g_file_get_child (container e) (info_name i)) (take n (remaining e))
      else [])"
| "seen c ev = []"

definition observed :: "nat \<Rightarrow> event list \<Rightarrow> gfile list" where
  "observed c tr = concat (map (seen c) tr)"

fun closes :: "nat \<Rightarrow> event \<Rightarrow> bool" where
  "closes c (Done (Next_files e n p k c') None) = (c' = c \<and> take n (remaining e) = [])"
| "closes c ev = False"

definition exhausted :: "nat \<Rightarrow> event list \<Rightarrow> bool" where
  "exhausted c tr = (\<exists>ev\<in>set tr. closes c ev)"

fun dispatches :: "gfile \<Rightarrow> event \<Rightarrow> bool" where
  "dispatches f (Issue (Delete_file f' p k On_file_deleted c)) = (f' = f)"
| "dispatches f (Issue (Enumerate_children f' attrs fl p k c)) = (f' = f)"
| "dispatches f ev = False"

definition dispatched :: "gfile \<Rightarrow> event list \<Rightarrow> bool" where
  "dispatched f tr = (\<exists>ev\<in>set tr. dispatches f ev)"

definition pend_of :: "state \<Rightarrow> nat \<Rightarrow> nat" where
  "pend_of s c = (case ctx_at s c of None \<Rightarrow> 0 | Some d \<Rightarrow> unat (num_files_pending d))"

definition gone :: "state \<Rightarrow> nat \<Rightarrow> bool" where
  "gone s c = (c < length (heap s) \<and> ctx_at s c = None)"

definition ledger :: "state \<Rightarrow> bool" where
  "ledger s =
     (\<forall>c. count_list (trace s) (Incr c) = count_list (trace s) (Decr c) + pend_of s c \<and>
          dir_issues c (trace s) =
            nops (pending s) Dir_delete c + count_list (trace s) (Complete c) \<and>
          count_list (trace s) (Complete c) = (if gone s c then 1 else 0))"

fun leaf_for :: "nat \<Rightarrow> gfile \<Rightarrow> async_op \<Rightarrow> bool" where
  "leaf_for c f (Delete_file f' p k On_file_deleted c') = (c' = c \<and> f' = f)"
| "leaf_for c f op = False"

fun kid_for :: "nat \<Rightarrow> gfile \<Rightarrow> AsyncRmContext option \<Rightarrow> bool" where
  "kid_for c f None = False"
| "kid_for c f (Some d) = (callback (result d) = On_rm_rf_complete c \<and> ctx_file d = f)"

definition has_kid :: "state \<Rightarrow> nat \<Rightarrow> gfile \<Rightarrow> bool" where
  "has_kid s c f = (\<exists>x\<in>set (heap s). kid_for c f x)"

definition outstanding :: "state \<Rightarrow> nat \<Rightarrow> gfile \<Rightarrow> bool" where
  "outstanding s c f = ((\<exists>op\<in>set (pending s). leaf_for c f op) \<or> has_kid s c f)"

fun own_target :: "state \<Rightarrow> async_op \<Rightarrow> bool" where
  "own_target s (Delete_file f p k On_end_directory_deleted c) =
     (case ctx_at s c of None \<Rightarrow> False | Some d \<Rightarrow> ctx_file d = f)"
| "own_target s op = True"

text \<open>
  \<open>owed\<close> are the entries of the batch being handled for \<open>c0\<close> that the loop of
  \<open>on_next_files\<close> has not reached yet.
\<close>

definition family :: "nat \<Rightarrow> gfile list \<Rightarrow> state \<Rightarrow> bool" where
  "family c0 owed s =
     ((\<forall>c d. ctx_at s c = Some d \<longrightarrow>
         (nops (pending s) Listing c = 0 \<longrightarrow> exhausted c (trace s)) \<and>
         (\<forall>f\<in>set (observed c (trace s)).
            deleted f (trace s) \<or> outstanding s c f \<or> (c = c0 \<and> f \<in> set owed))) \<and>
      (\<forall>c. \<forall>f\<in>set (observed c (trace s)).
            dispatched f (trace s) \<or> (c = c0 \<and> f \<in> set owed)) \<and>
      (\<forall>op\<in>set (pending s). own_target s op) \<and>
      (\<forall>c. length (heap s) \<le> c \<longrightarrow> observed c (trace s) = [] \<and> \<not> exhausted c (trace s)) \<and>
      (\<forall>c. exhausted c (trace s) \<longrightarrow> nops (pending s) Listing c = 0))"

definition params :: "int \<Rightarrow> nat option \<Rightarrow> state \<Rightarrow> bool" where
  "params prio canc s =
     (\<forall>c d. ctx_at s c = Some d \<longrightarrow> priority d = prio \<and> cancellable d = canc)"

fun issued_ok :: "node \<Rightarrow> int \<Rightarrow> nat option \<Rightarrow> async_op \<Rightarrow> bool" where
  "issued_ok fs prio canc (Enumerate_children f attrs fl p k c) =
     (fl = G_FILE_QUERY_INFO_NOFOLLOW_SYMLINKS \<and> p = prio \<and> k = canc \<and>
      is_dir_at fs (rel f))"
| "issued_ok fs prio canc (Delete_file f p k On_end_directory_deleted c) = (p = prio \<and> k = canc)"
| "issued_ok fs prio canc (Delete_file f p k On_file_deleted c) = (p = prio \<and> k = None)"
| "issued_ok fs prio canc (Next_files e n p k c) = True"

text \<open>The batch request made by \<open>on_enumerate_children\<close>: the one that follows the opening of a listing.\<close>

fun fetch_params :: "event \<Rightarrow> (int \<times> nat option) option" where
  "fetch_params (Issue (Next_files e n p k c)) = Some (p, k)"
| "fetch_params ev = None"

fun opens :: "event list \<Rightarrow> bool" where
  "opens (Done (Enumerate_children f attrs fl p k c) r # tr) = True"
| "opens tr = False"

fun first_fetch :: "int \<Rightarrow> nat option \<Rightarrow> event list \<Rightarrow> bool" where
  "first_fetch prio canc [] = True"
| "first_fetch prio canc (ev # tr) =
     ((case fetch_params ev of
         None \<Rightarrow> True
       | Some (p, k) \<Rightarrow>
           if opens tr then p = prio \<and> k = canc else p = G_PRIORITY_DEFAULT \<and> k = None) \<and>
      first_fetch prio canc tr)"

fun listing_of :: "event \<Rightarrow> nat option" where
  "listing_of (Done (Next_files e n p k c) None) = Some c"
| "listing_of ev = None"

text \<open>
  Walking the record from the most recent event back: when the delete of a directory is
  issued, its listing has been exhausted and every entry seen in it has been deleted; a batch
  is handed over only while that delete has not been issued; a completion is signalled only
  after the delete of the directory has succeeded.
\<close>

fun is_incr :: "event \<Rightarrow> bool" where
  "is_incr (Incr c) = True"
| "is_incr ev = False"

fun ends_child :: "nat \<Rightarrow> event \<Rightarrow> bool" where
  "ends_child c (Done (Delete_file f p k On_file_deleted c') None) = (c' = c)"
| "ends_child c (Complete k) = True"
| "ends_child c ev = False"

fun hands_over :: "nat \<Rightarrow> event \<Rightarrow> bool" where
  "hands_over c (Done (Enumerate_children f attrs fl p k c') None) = (c' = c)"
| "hands_over c (Done (Next_files e n p k c') None) = (c' = c \<and> take n (remaining e) \<noteq> [])"
| "hands_over c ev = False"

fun event_ok :: "event \<Rightarrow> event list \<Rightarrow> bool" where
  "event_ok (Issue (Delete_file f p k On_end_directory_deleted c)) tr =
     (exhausted c tr \<and> count_list tr (Incr c) = count_list tr (Decr c) \<and>
      (\<forall>g\<in>set (observed c tr). deleted g tr))"
| "event_ok (Issue (Delete_file f p k On_file_deleted c)) tr = (tr \<noteq> [] \<and> hd tr = Incr c)"
| "event_ok (Issue (Enumerate_children f attrs fl p k c)) tr = (tr = [] \<or> is_incr (hd tr))"
| "event_ok (Issue (Next_files e n p k c)) tr = (tr \<noteq> [] \<and> hands_over c (hd tr))"
| "event_ok (Done (Next_files e n p k c) None) tr = (dir_issues c tr = 0)"
| "event_ok (Complete c) tr = (\<exists>ev\<in>set tr. dir_done c ev)"
| "event_ok (Decr c) tr = (tr \<noteq> [] \<and> ends_child c (hd tr))"
| "event_ok ev tr = True"

fun in_order_ok :: "event list \<Rightarrow> bool" where
  "in_order_ok [] = True"
| "in_order_ok (ev # tr) = (event_ok ev tr \<and> in_order_ok tr)"

definition record_base :: "node \<Rightarrow> int \<Rightarrow> nat option \<Rightarrow> event list \<Rightarrow> bool" where
  "record_base fs prio canc tr =
     ((\<forall>op. Issue op \<in> set tr \<longrightarrow> issued_ok fs prio canc op) \<and>
      first_fetch prio canc tr \<and>
      in_order_ok tr)"

definition record_ok :: "node \<Rightarrow> int \<Rightarrow> nat option \<Rightarrow> event list \<Rightarrow> bool" where
  "record_ok fs prio canc tr =
     (record_base fs prio canc tr \<and>
      (\<forall>c. dir_issues c tr \<le> 1 \<and> count_list tr (Complete c) \<le> 1 \<and>
           count_list tr (Decr c) \<le> count_list tr (Incr c) \<and>
           (dir_issues c tr = 1) =
             (exhausted c tr \<and> count_list tr (Incr c) = count_list tr (Decr c))) \<and>
      (\<forall>c. \<forall>f\<in>set (observed c tr). dispatched f tr))"

definition chron :: "int \<Rightarrow> nat option \<Rightarrow> nat \<Rightarrow> gfile list \<Rightarrow> state \<Rightarrow> bool" where
  "chron prio canc c0 owed s = (ledger s \<and> family c0 owed s \<and> params prio canc s)"

definition history :: "node \<Rightarrow> int \<Rightarrow> nat option \<Rightarrow> state \<Rightarrow> bool" where
  "history fs prio canc s =
     (record_ok fs prio canc (trace s) \<and>
      (\<forall>c. count_list (trace s) (Complete c) = (if gone s c then 1 else 0)) \<and>
      (exit_status s = Some 1 \<or>
       sound fs 0 s \<and> chron prio canc 0 [] s \<and> record_base fs prio canc (trace s)))"


definition example_tree :: node where
  "example_tree =
     Dir ''root'' [Regular ''a.txt'', Dir ''sub'' [Regular ''b.txt'', Regular ''c.txt'']]"

definition in_order :: "nat \<Rightarrow> loop_event list" where
  "in_order n = replicate n (Ready 0 None)"

definition link_tree :: node where
  "link_tree = Dir ''d'' [Regular ''f'', Symlink ''l'' (Some (Dir ''t'' [Regular ''x'']))]"

text \<open>The record of a run, and the deletions that succeeded in it, the earliest first.\<close>

definition record_of ::
  "node \<Rightarrow> loop_event list \<Rightarrow> string option \<Rightarrow> int \<Rightarrow> nat option \<Rightarrow> event list" where
  "record_of fs evs p prio canc = trace (g_main_loop_run fs evs (launch p prio canc))"

fun removed :: "event \<Rightarrow> gfile option" where
  "removed (Done (Delete_file f p k cb c) None) = Some f"
| "removed ev = None"

definition removals :: "event list \<Rightarrow> gfile list" where
  "removals tr = List.map_filter removed (rev tr)"

fun failed_event :: "event \<Rightarrow> bool" where
  "failed_event (Done op (Some msg)) = True"
| "failed_event ev = False"

fun failure_message :: "event \<Rightarrow> string" where
  "failure_message (Done op (Some msg)) = msg"
| "failure_message ev = []"

definition failures :: "event list \<Rightarrow> event list" where
  "failures tr = filter failed_event tr"

text \<open>What a run has made of the failures delivered to it.\<close>

definition aborting :: "state \<Rightarrow> bool" where
  "aborting s =
     (length (failures (trace s)) = (if exit_status s = Some 1 then 1 else 0) \<and>
      stderr s = map failure_message (failures (trace s)) \<and>
      (exit_status s = Some 1 \<longrightarrow>
         trace s \<noteq> [] \<and> failed_event (hd (trace s)) \<and> count_list (trace s) (Complete 0) = 0))"

text \<open>
  The child operations of a context that are in flight: its leaf deletes, and the contexts
  of its sub-directories that have not completed yet.
\<close>

definition in_flight :: "state \<Rightarrow> nat \<Rightarrow> nat" where
  "in_flight s c = nops (pending s) Leaf_delete c + kids s c"

text \<open>
  The record, latest event first, of the dispatches of a batch for context \<open>c\<close>, given the
  files of the batch from the last to the first: for each file an increment of the counter
  and then the issue of its leaf delete or of the listing of its directory.
\<close>

fun batch_dispatched :: "nat \<Rightarrow> gfile list \<Rightarrow> event list \<Rightarrow> bool" where
  "batch_dispatched c [] tr = (tr = [])"
| "batch_dispatched c (f # fs) (ev # Incr c' # tr) =
     (c' = c \<and> dispatches f ev \<and> batch_dispatched c fs tr)"
| "batch_dispatched c (f # fs) tr = False"

text \<open>
  A state of the script corresponds to a state of the C program run with priority 0 and no
  cancellable: the same operations in flight, every context of the C program that has not
  been freed matched by the JavaScript object of the same index, and the sum of the two
  counters of the script one short of \<open>files_deleted\<close> once the top-level directory has been
  deleted, equal to it before.
\<close>

fun js_of :: "ready_callback \<Rightarrow> js_callback" where
  "js_of On_rm_finished = Loop_quit"
| "js_of (On_rm_rf_complete p) = OnRmRfComplete p"

definition count_of :: "guint \<Rightarrow> int" where
  "count_of w = int (unat w)"

definition ctx_sim :: "js_context \<Rightarrow> AsyncRmContext \<Rightarrow> bool" where
  "ctx_sim j d =
     (numFilesPending j = count_of (num_files_pending d) \<and> path j = ctx_file d \<and>
      haveMoreFiles j = have_more_files d \<and> callback_js j = js_of (callback (result d)) \<and>
      priority d = 0 \<and> cancellable d = None \<and> res_error (result d) = None)"

definition sim :: "js_state \<Rightarrow> state \<Rightarrow> bool" where
  "sim j s =
     (length (js_heap j) = length (heap s) \<and>
      (\<forall>c d. ctx_at s c = Some d \<longrightarrow> ctx_sim (js_heap j ! c) d) \<and>
      js_pending j = pending s \<and> js_loop_running j = loop_running s \<and> js_uncaught j = [] \<and>
      exit_status s = None \<and> \<not> fault s \<and>
      unat (files_deleted s) =
        numFilesDeleted j + numDirsDeleted j + (if loop_running s then 0 else 1))"



lemma nops_simps [simp]:
  "nops [] k c = 0"
  "nops (op # ops) k c = (if kind_of op = k \<and> op_ctx op = c then 1 else 0) + nops ops k c"
  "nops (xs @ ys) k c = nops xs k c + nops ys k c"
  by (simp_all add: nops_def)

lemma filter_update_count:
  "i < length xs \<Longrightarrow>
   length (filter P (xs[i := v])) + (if P (xs ! i) then 1 else 0) =
   length (filter P xs) + (if P v then 1 else 0)"
proof (induction xs arbitrary: i)
  case Nil
  then show ?case by simp
next
  case (Cons x xs)
  then show ?case by (cases i) auto
qed

lemma ctx_at_emit [simp]: "ctx_at (emit e s) c = ctx_at s c"
  by (simp add: ctx_at_def emit_def)

lemma ctx_at_issue [simp]: "ctx_at (issue op s) c = ctx_at s c"
  by (simp add: ctx_at_def issue_def emit_def)

lemma ctx_at_modify [simp]:
  "ctx_at (modify c f s) c' = (if c' = c then map_option f (ctx_at s c) else ctx_at s c')"
  by (auto simp: ctx_at_def modify_def)

lemma ctx_at_free [simp]:
  "ctx_at (g_free c s) c' = (if c' = c then None else ctx_at s c')"
  by (auto simp: ctx_at_def g_free_def)

lemma ctx_at_upd [simp]:
  "ctx_at (s\<lparr>pending := ps\<rparr>) c = ctx_at s c"
  "ctx_at (s\<lparr>files_deleted := n\<rparr>) c = ctx_at s c"
  "ctx_at (s\<lparr>loop_running := b\<rparr>) c = ctx_at s c"
  "ctx_at (s\<lparr>timer := b\<rparr>) c = ctx_at s c"
  "ctx_at (s\<lparr>stdout := out\<rparr>) c = ctx_at s c"
  "ctx_at (s\<lparr>trace := tr\<rparr>) c = ctx_at s c"
  by (simp_all add: ctx_at_def)

lemma kids_modify [simp]:
  "(\<And>x. result (f x) = result x) \<Longrightarrow> kids (modify c f s) p = kids s p"
proof -
  assume r: "\<And>x. result (f x) = result x"
  show ?thesis
  proof (cases "c < length (heap s)")
    case True
    have "is_kid p (map_option f (heap s ! c)) = is_kid p (heap s ! c)"
      by (cases "heap s ! c") (simp_all add: r)
    with filter_update_count [OF True, of "is_kid p" "map_option f (heap s ! c)"] True
    show ?thesis by (simp add: kids_def modify_def)
  next
    case False
    then show ?thesis by (simp add: kids_def modify_def)
  qed
qed

lemma live_modify [simp]: "live (modify c f s) = live s"
proof (cases "c < length (heap s)")
  case True
  have "(map_option f (heap s ! c) \<noteq> None) = (heap s ! c \<noteq> None)"
    by simp
  with filter_update_count [OF True, of "\<lambda>x. x \<noteq> None" "map_option f (heap s ! c)"] True
  show ?thesis by (simp add: live_def modify_def)
next
  case False
  then show ?thesis by (simp add: live_def modify_def)
qed

lemma kids_free:
  "ctx_at s c = Some d \<Longrightarrow> kids (g_free c s) p + (if callback (result d) = On_rm_rf_complete p then 1 else 0) = kids s p"
  using filter_update_count [of c "heap s" "is_kid p" None]
  by (auto simp: kids_def g_free_def ctx_at_def split: if_splits)

lemma live_free:
  "ctx_at s c = Some d \<Longrightarrow> Suc (live (g_free c s)) = live s"
  using filter_update_count [of c "heap s" "\<lambda>x. x \<noteq> None" None]
  by (auto simp: live_def g_free_def ctx_at_def split: if_splits)

lemma obs_emit [simp]:
  "heap (emit e s) = heap s" "pending (emit e s) = pending s"
  "files_deleted (emit e s) = files_deleted s" "loop_running (emit e s) = loop_running s"
  "timer (emit e s) = timer s" "stdout (emit e s) = stdout s" "stderr (emit e s) = stderr s"
  "exit_status (emit e s) = exit_status s" "fault (emit e s) = fault s"
  "trace (emit e s) = e # trace s"
  by (simp_all add: emit_def)

lemma obs_issue [simp]:
  "heap (issue op s) = heap s" "pending (issue op s) = pending s @ [op]"
  "files_deleted (issue op s) = files_deleted s" "loop_running (issue op s) = loop_running s"
  "timer (issue op s) = timer s" "stdout (issue op s) = stdout s" "stderr (issue op s) = stderr s"
  "exit_status (issue op s) = exit_status s" "fault (issue op s) = fault s"
  "trace (issue op s) = Issue op # trace s"
  by (simp_all add: issue_def)

lemma obs_modify [simp]:
  "length (heap (modify c f s)) = length (heap s)"
  "pending (modify c f s) = pending s"
  "files_deleted (modify c f s) = files_deleted s" "loop_running (modify c f s) = loop_running s"
  "timer (modify c f s) = timer s" "stdout (modify c f s) = stdout s" "stderr (modify c f s) = stderr s"
  "exit_status (modify c f s) = exit_status s" "fault (modify c f s) = fault s"
  "trace (modify c f s) = trace s"
  by (simp_all add: modify_def)

lemma obs_free [simp]:
  "length (heap (g_free c s)) = length (heap s)"
  "pending (g_free c s) = pending s"
  "files_deleted (g_free c s) = files_deleted s" "loop_running (g_free c s) = loop_running s"
  "timer (g_free c s) = timer s" "stdout (g_free c s) = stdout s" "stderr (g_free c s) = stderr s"
  "exit_status (g_free c s) = exit_status s" "fault (g_free c s) = fault s"
  "trace (g_free c s) = trace s"
  by (simp_all add: g_free_def)

lemma kids_other [simp]:
  "kids (emit e s) p = kids s p" "kids (issue op s) p = kids s p"
  "kids (s\<lparr>pending := ps\<rparr>) p = kids s p" "kids (s\<lparr>files_deleted := n\<rparr>) p = kids s p"
  "kids (s\<lparr>loop_running := b\<rparr>) p = kids s p"
  by (simp_all add: kids_def)

lemma live_other [simp]:
  "live (emit e s) = live s" "live (issue op s) = live s"
  "live (s\<lparr>pending := ps\<rparr>) = live s" "live (s\<lparr>files_deleted := n\<rparr>) = live s"
  "live (s\<lparr>loop_running := b\<rparr>) = live s"
  by (simp_all add: live_def)

lemma unat_succ32: "unat w + 1 < 2 ^ 32 \<Longrightarrow> unat (w + 1 :: 32 word) = unat w + 1"
  by (simp add: unat_word_ariths)

lemma unat_pred32: "w \<noteq> 0 \<Longrightarrow> unat (w - 1 :: 32 word) = unat w - 1"
  by (simp add: unat_minus_one)

lemma leaf_le_weight: "nops ops Leaf_delete c \<le> sum_list (map (weight fs) ops)"
proof (induction ops)
  case Nil
  then show ?case by simp
next
  case (Cons op ops)
  then show ?case by (cases "(fs, op)" rule: weight.cases) auto
qed

lemma kids_le_live: "kids s c \<le> live s"
proof -
  have "\<And>xs. length (filter (is_kid c) xs) \<le> length (filter (\<lambda>x. x \<noteq> None) xs)"
  proof -
    fix xs :: "AsyncRmContext option list"
    show "length (filter (is_kid c) xs) \<le> length (filter (\<lambda>x. x \<noteq> None) xs)"
      by (induction xs) auto
  qed
  then show ?thesis by (simp add: kids_def live_def)
qed

lemma todo_issue [simp]: "todo fs (issue op s) = todo fs s + weight fs op"
  by (simp add: todo_def)

lemma todo_emit [simp]: "todo fs (emit e s) = todo fs s"
  by (simp add: todo_def)

lemma sink_ok_same:
  "(\<And>p. (ctx_at s' p = None) = (ctx_at s p = None)) \<Longrightarrow> sink_ok s' c cb = sink_ok s c cb"
  by (cases cb) simp_all

lemma sink_ok_simps [simp]:
  "sink_ok (issue op s) c cb = sink_ok s c cb"
  "sink_ok (emit e s) c cb = sink_ok s c cb"
  "sink_ok (modify c' f s) c cb = sink_ok s c cb"
  "sink_ok (s\<lparr>pending := ps\<rparr>) c cb = sink_ok s c cb"
  "sink_ok (s\<lparr>files_deleted := n\<rparr>) c cb = sink_ok s c cb"
  "sink_ok (s\<lparr>loop_running := b\<rparr>) c cb = sink_ok s c cb"
  by (rule sink_ok_same; simp)+

lemma check_restores:
  assumes "awaiting_check fs k c s"
  shows "sound fs k (check_no_children c s)"
proof -
  from assms obtain d where d: "ctx_at s c = Some d"
    and un: "unchecked_phase (nops (pending s) Listing c) (nops (pending s) Dir_delete c) d"
    unfolding awaiting_check_def by blast
  from assms have g: "globals_ok fs k s" by (simp add: awaiting_check_def)
  from assms have base: "\<And>c' d'. ctx_at s c' = Some d' \<Longrightarrow> ctx_base s c' d'"
    and ph: "\<And>c' d'. ctx_at s c' = Some d' \<Longrightarrow> c' \<noteq> c \<Longrightarrow> ctx_phase s c' d'"
    unfolding awaiting_check_def by blast+
  show ?thesis
  proof (cases "num_files_pending d = 0 \<and> \<not> have_more_files d")
    case False
    then have eq: "check_no_children c s = s"
      using d by (auto simp: check_no_children_def)
    have td: "ctx_phase s c d"
      using False un unfolding ctx_phase_def unchecked_phase_def listing_phase_def waiting_phase_def
      by (cases "have_more_files d") simp_all
    have "ctx_base s c' d' \<and> ctx_phase s c' d'" if "ctx_at s c' = Some d'" for c' d'
    proof (cases "c' = c")
      case True
      with that d have "d' = d" by simp
      with base [OF d] td True show ?thesis by simp
    next
      case False
      with base [OF that] ph [OF that] show ?thesis by simp
    qed
    with g show ?thesis
      unfolding eq sound_def by simp
  next
    case True
    let ?op = "Delete_file (ctx_file d) (priority d) (cancellable d) On_end_directory_deleted c"
    have eq: "check_no_children c s = issue ?op s"
      using d True by (simp add: check_no_children_def g_file_delete_async_def)
    have g': "globals_ok fs k (issue ?op s)"
      using g d by (simp add: globals_ok_def op_ok_def)
    have "ctx_base (issue ?op s) c' d' \<and> ctx_phase (issue ?op s) c' d'"
      if "ctx_at s c' = Some d'" for c' d'
    proof (cases "c' = c")
      case c: True
      with that d have d': "d' = d" by simp
      have "ctx_base (issue ?op s) c d"
        using base [OF d] by (simp add: ctx_base_def)
      moreover have "deleting_phase (nops (pending (issue ?op s)) Listing c)
          (nops (pending (issue ?op s)) Dir_delete c) d"
        using un True by (simp add: deleting_phase_def unchecked_phase_def)
      ultimately show ?thesis using c d' by (simp add: ctx_phase_def)
    next
      case False
      have "ctx_base (issue ?op s) c' d'"
        using base [OF that] False by (simp add: ctx_base_def)
      moreover have "ctx_phase (issue ?op s) c' d'"
        using ph [OF that False] False by (simp add: ctx_phase_def)
      ultimately show ?thesis ..
    qed
    with g' show ?thesis unfolding eq sound_def by simp
  qed
qed

lemma op_ok_mono:
  "op_ok fs s op \<Longrightarrow> (\<And>p. ctx_at s p \<noteq> None \<Longrightarrow> ctx_at s' p \<noteq> None) \<Longrightarrow> op_ok fs s' op"
  by (simp add: op_ok_def)

lemma sink_ok_mono:
  "sink_ok s c cb \<Longrightarrow> (\<And>p. ctx_at s p \<noteq> None \<Longrightarrow> ctx_at s' p \<noteq> None) \<Longrightarrow> sink_ok s' c cb"
  by (cases cb) simp_all

lemma ctx_base_cong:
  "ctx_base s c d \<Longrightarrow>
   nops (pending s') Leaf_delete c = nops (pending s) Leaf_delete c \<Longrightarrow>
   kids s' c = kids s c \<Longrightarrow>
   (\<And>p. ctx_at s p \<noteq> None \<Longrightarrow> ctx_at s' p \<noteq> None) \<Longrightarrow>
   ctx_base s' c d"
  using sink_ok_mono [of s c "callback (result d)" s'] by (simp add: ctx_base_def)

lemma ctx_phase_cong:
  "ctx_phase s c d \<Longrightarrow>
   nops (pending s') Listing c = nops (pending s) Listing c \<Longrightarrow>
   nops (pending s') Dir_delete c = nops (pending s) Dir_delete c \<Longrightarrow>
   ctx_phase s' c d"
  by (simp add: ctx_phase_def)

lemma todo_pending [simp]:
  "todo fs (s\<lparr>pending := ps\<rparr>) = live s + sum_list (map (weight fs) ps)"
  by (simp add: todo_def)

lemma todo_modify [simp]: "todo fs (modify c f s) = todo fs s"
  by (simp add: todo_def)

lemma todo_files_deleted [simp]: "todo fs (s\<lparr>files_deleted := n\<rparr>) = todo fs s"
  by (simp add: todo_def)

lemma file_deleted_sound:
  assumes snd: "sound fs 0 s"
    and pend: "pending s = xs @ Delete_file f p k On_file_deleted c # ys"
    and bound: "tree_size fs < 2 ^ 32"
  shows "sound fs 0 (on_file_deleted c None (emit ev (s\<lparr>pending := xs @ ys\<rparr>)))"
proof -
  let ?op = "Delete_file f p k On_file_deleted c"
  let ?dec = "\<lambda>x. x\<lparr>num_files_pending := num_files_pending x - 1\<rparr>"
  define s1 where "s1 = emit (Decr c) (modify c ?dec
    ((emit ev (s\<lparr>pending := xs @ ys\<rparr>))\<lparr>files_deleted := files_deleted s + 1\<rparr>))"
  from snd have g: "globals_ok fs 0 s" by (simp add: sound_def)
  from snd have all: "\<And>c' d'. ctx_at s c' = Some d' \<Longrightarrow> ctx_base s c' d' \<and> ctx_phase s c' d'"
    by (simp add: sound_def)
  from g pend have "op_ok fs s ?op" by (simp add: globals_ok_def)
  then obtain d where d: "ctx_at s c = Some d" by (auto simp: op_ok_def)
  have eq: "on_file_deleted c None (emit ev (s\<lparr>pending := xs @ ys\<rparr>)) = check_no_children c s1"
    using d by (simp add: on_file_deleted_def s1_def)
  have live_same: "(ctx_at s1 q = None) = (ctx_at s q = None)" for q
    using d by (simp add: s1_def)
  have K: "unat (num_files_pending d) = Suc (nops (xs @ ys) Leaf_delete c + kids s c)"
    using all [OF d] pend by (simp add: ctx_base_def)
  then have nz: "num_files_pending d \<noteq> 0" by auto
  have phd: "ctx_phase s c d" using all [OF d] by simp
  have un: "unchecked_phase (nops (xs @ ys) Listing c) (nops (xs @ ys) Dir_delete c) (?dec d)"
    using phd nz pend
    by (auto simp: ctx_phase_def unchecked_phase_def listing_phase_def waiting_phase_def
        deleting_phase_def)
  have cnt: "unat (files_deleted s) + (live s + sum_list (map (weight fs) (xs @ ys))) + 1 = tree_size fs"
    using g pend by (simp add: globals_ok_def todo_def)
  then have fd: "unat (files_deleted s + 1) = unat (files_deleted s) + 1"
    using bound by (intro unat_succ32) linarith
  have g1: "globals_ok fs 0 s1"
    unfolding globals_ok_def
  proof (intro conjI)
    show "\<not> fault s1" "exit_status s1 = None"
      using g by (simp_all add: s1_def globals_ok_def)
    show "\<forall>op\<in>set (pending s1). op_ok fs s1 op"
    proof
      fix op assume "op \<in> set (pending s1)"
      then have "op \<in> set (pending s)" using pend by (auto simp: s1_def)
      with g have "op_ok fs s op" by (simp add: globals_ok_def)
      then show "op_ok fs s1 op" by (rule op_ok_mono) (simp add: live_same)
    qed
    show "unat (files_deleted s1) + todo fs s1 + 0 = tree_size fs"
      using cnt fd by (simp add: s1_def)
    show "loop_running s1 = (ctx_at s1 0 \<noteq> None)"
      using g live_same [of 0] by (simp add: globals_ok_def s1_def)
  qed
  have c1: "ctx_at s1 c = Some (?dec d)" using d by (simp add: s1_def)
  have per: "ctx_base s1 c' d' \<and> (c' \<noteq> c \<longrightarrow> ctx_phase s1 c' d')"
    if "ctx_at s1 c' = Some d'" for c' d'
  proof (cases "c' = c")
    case True
    with that c1 have d': "d' = ?dec d" by simp
    have "unat (num_files_pending d - 1) = nops (xs @ ys) Leaf_delete c + kids s c"
      using K nz by (simp add: unat_pred32)
    then have "ctx_base s1 c (?dec d)"
      using all [OF d] by (simp add: ctx_base_def s1_def)
    then show ?thesis using True d' by simp
  next
    case False
    with that have old: "ctx_at s c' = Some d'" by (simp add: s1_def)
    from False have ne: "c \<noteq> c'" by simp
    have "ctx_base s1 c' d'"
      using all [OF old, THEN conjunct1]
      by (rule ctx_base_cong) (auto simp: s1_def pend ne)
    moreover have "ctx_phase s1 c' d'"
      using all [OF old, THEN conjunct2]
      by (rule ctx_phase_cong) (simp_all add: s1_def pend ne)
    ultimately show ?thesis by simp
  qed
  have "awaiting_check fs 0 c s1"
    unfolding awaiting_check_def
  proof (intro conjI allI impI)
    show "globals_ok fs 0 s1" by (rule g1)
    have "unchecked_phase (nops (pending s1) Listing c) (nops (pending s1) Dir_delete c) (?dec d)"
      using un by (simp add: s1_def)
    with c1 show "\<exists>d. ctx_at s1 c = Some d \<and>
        unchecked_phase (nops (pending s1) Listing c) (nops (pending s1) Dir_delete c) d"
      by blast
  qed (use per in blast)+
  then show ?thesis unfolding eq by (rule check_restores)
qed

lemma lookup_snoc:
  "lookup nd p = Some (Dir n cs) \<Longrightarrow> lookup nd (p @ [x]) = lookup_in cs x []"
  and lookup_in_snoc:
  "lookup_in ns y ys = Some (Dir n cs) \<Longrightarrow> lookup_in ns y (ys @ [x]) = lookup_in cs x []"
  by (induction nd p and ns y ys rule: lookup_lookup_in.induct) (auto split: if_splits)

lemma lookup_in_name:
  "distinct (map node_name cs) \<Longrightarrow> nd \<in> set cs \<Longrightarrow> lookup_in cs (node_name nd) [] = Some nd"
  by (induction cs) auto

lemma wf_lookup:
  "wf_node nd \<Longrightarrow> lookup nd p = Some r \<Longrightarrow> wf_node r"
  and wf_lookup_in:
  "wf_forest ns \<Longrightarrow> lookup_in ns y ys = Some r \<Longrightarrow> wf_node r"
  by (induction nd p and ns y ys rule: lookup_lookup_in.induct) (auto split: if_splits)

lemma tree_size_pos: "0 < tree_size nd"
  by (cases nd) simp_all

lemma listed_entry:
  assumes "wf_node fs" "lookup fs (rel f) = Some (Dir n cs)" "nd \<in> set cs"
  shows "lookup fs (rel f @ [node_name nd]) = Some nd"
proof -
  from assms(1,2) have "wf_node (Dir n cs)" by (rule wf_lookup)
  then have "distinct (map node_name cs)" by simp
  then have "lookup_in cs (node_name nd) [] = Some nd" using assms(3) by (rule lookup_in_name)
  with assms(2) show ?thesis by (simp add: lookup_snoc)
qed

lemma listed_entry_ok:
  assumes "wf_node fs" "lookup fs (rel f) = Some (Dir n cs)" "nd \<in> set cs"
  shows "entry_ok fs f (query_info G_FILE_QUERY_INFO_NOFOLLOW_SYMLINKS nd)"
  using listed_entry [OF assms] by (simp add: entry_ok_def query_info_def)

lemma listed_weight:
  assumes "wf_node fs" "lookup fs (rel f) = Some (Dir n cs)" "set ns \<subseteq> set cs"
  shows "sum_list (map (\<lambda>i. size_at fs (rel f @ [info_name i])) (map (query_info fl) ns)) =
         forest_size ns"
  using assms(3)
proof (induction ns)
  case Nil
  then show ?case by simp
next
  case (Cons a ns)
  then have "a \<in> set cs" by simp
  from listed_entry [OF assms(1,2) this] have "size_at fs (rel f @ [node_name a]) = tree_size a"
    by (simp add: size_at_def)
  with Cons show ?case by (simp add: query_info_def)
qed

lemma local_change:
  assumes g: "globals_ok fs k s"
    and oth: "\<And>c' d'. c' \<noteq> c \<Longrightarrow> ctx_at s c' = Some d' \<Longrightarrow> ctx_base s c' d' \<and> ctx_phase s c' d'"
    and live_c: "ctx_at s c \<noteq> None" "ctx_at s1 c \<noteq> None"
    and same_ctx: "\<And>c'. c' \<noteq> c \<Longrightarrow> ctx_at s1 c' = ctx_at s c'"
    and kids: "\<And>c'. kids s1 c' = kids s c'" and live: "live s1 = live s"
    and flags: "fault s1 = fault s" "exit_status s1 = exit_status s" "loop_running s1 = loop_running s"
    and ops: "\<And>op. op \<in> set (pending s1) \<Longrightarrow>
                op \<in> set (pending s) \<or> (op_ctx op = c \<and> op_shape fs op)"
    and cnt: "\<And>c' k. c' \<noteq> c \<Longrightarrow> nops (pending s1) k c' = nops (pending s) k c'"
    and w: "unat (files_deleted s1) + sum_list (map (weight fs) (pending s1)) + k1 =
            unat (files_deleted s) + sum_list (map (weight fs) (pending s)) + k"
  shows "globals_ok fs k1 s1"
    and "\<And>c' d'. c' \<noteq> c \<Longrightarrow> ctx_at s1 c' = Some d' \<Longrightarrow> ctx_base s1 c' d' \<and> ctx_phase s1 c' d'"
proof -
  have live_same: "(ctx_at s1 q = None) = (ctx_at s q = None)" for q
    using live_c same_ctx [of q] by (cases "q = c") auto
  show "globals_ok fs k1 s1"
    unfolding globals_ok_def
  proof (intro conjI)
    show "\<not> fault s1" "exit_status s1 = None"
      using g flags by (simp_all add: globals_ok_def)
    show "\<forall>op\<in>set (pending s1). op_ok fs s1 op"
    proof
      fix op assume "op \<in> set (pending s1)"
      from ops [OF this] show "op_ok fs s1 op"
      proof
        assume "op \<in> set (pending s)"
        with g have "op_ok fs s op" by (simp add: globals_ok_def)
        then show ?thesis by (rule op_ok_mono) (simp add: live_same)
      next
        assume "op_ctx op = c \<and> op_shape fs op"
        with live_c show ?thesis by (simp add: op_ok_def)
      qed
    qed
    show "unat (files_deleted s1) + todo fs s1 + k1 = tree_size fs"
      using g w live by (simp add: globals_ok_def todo_def)
    show "loop_running s1 = (ctx_at s1 0 \<noteq> None)"
      using g live_same [of 0] flags by (simp add: globals_ok_def)
  qed
  show "ctx_base s1 c' d' \<and> ctx_phase s1 c' d'" if ne: "c' \<noteq> c" and at: "ctx_at s1 c' = Some d'" for c' d'
  proof -
    from at ne have old: "ctx_at s c' = Some d'" by (simp add: same_ctx)
    have "ctx_base s1 c' d'"
      using oth [OF ne old, THEN conjunct1]
      by (rule ctx_base_cong) (simp_all add: cnt ne kids live_same)
    moreover have "ctx_phase s1 c' d'"
      using oth [OF ne old, THEN conjunct2]
      by (rule ctx_phase_cong) (simp_all add: cnt ne)
    ultimately show ?thesis ..
  qed
qed

lemma enumerated_sound:
  assumes snd: "sound fs 0 s"
    and pend: "pending s = xs @ Enumerate_children f attrs fl p k c # ys"
    and wf: "wf_node fs"
    and dir: "list_dir fs f fl = Some infos"
  shows "sound fs 0 (on_enumerate_children (Inr \<lparr>container = f, remaining = infos\<rparr>) c
           (emit ev (s\<lparr>pending := xs @ ys\<rparr>)))"
proof -
  let ?op = "Enumerate_children f attrs fl p k c"
  let ?e = "\<lparr>container = f, remaining = infos\<rparr>"
  from snd have g: "globals_ok fs 0 s" by (simp add: sound_def)
  from snd have all: "\<And>c' d'. ctx_at s c' = Some d' \<Longrightarrow> ctx_base s c' d' \<and> ctx_phase s c' d'"
    by (simp add: sound_def)
  from g pend have ok: "op_ok fs s ?op" by (simp add: globals_ok_def)
  then obtain d where d: "ctx_at s c = Some d" by (auto simp: op_ok_def)
  from ok have fl: "fl = G_FILE_QUERY_INFO_NOFOLLOW_SYMLINKS" by (simp add: op_ok_def)
  let ?new = "Next_files ?e 20 (priority d) (cancellable d) c"
  define s1 where "s1 = issue ?new (emit ev (s\<lparr>pending := xs @ ys\<rparr>))"
  have eq: "on_enumerate_children (Inr ?e) c (emit ev (s\<lparr>pending := xs @ ys\<rparr>)) = s1"
    using d by (simp add: on_enumerate_children_def s1_def g_file_enumerator_next_files_async_def)
  from ok obtain nd where "lookup fs (rel f) = Some nd" "is_dir nd"
    by (auto simp: op_ok_def split: option.splits)
  then obtain n cs where look: "lookup fs (rel f) = Some (Dir n cs)"
    by (cases nd) simp_all
  with dir have infos: "infos = map (query_info fl) cs" by simp
  have shape: "op_shape fs ?new"
    using listed_entry_ok [OF wf look] by (auto simp: infos fl)
  have wgt: "weight fs ?new = weight fs ?op"
    using listed_weight [OF wf look subset_refl, of fl] look by (simp add: infos size_at_def)
  have at1: "ctx_at s1 q = ctx_at s q" for q by (simp add: s1_def)
  have cnt: "nops (pending s1) kd q = nops (pending s) kd q" for kd q
    by (simp add: s1_def pend)
  have g1: "globals_ok fs 0 s1"
  proof (rule local_change(1) [where s = s and c = c and k = 0])
    show "globals_ok fs 0 s" by (rule g)
    show "unat (files_deleted s1) + sum_list (map (weight fs) (pending s1)) + 0 =
          unat (files_deleted s) + sum_list (map (weight fs) (pending s)) + 0"
      using wgt by (simp add: s1_def pend)
    show "op \<in> set (pending s1) \<Longrightarrow> op \<in> set (pending s) \<or> op_ctx op = c \<and> op_shape fs op" for op
      using shape by (auto simp: s1_def pend)
  qed (use all d in \<open>simp_all add: at1 cnt, simp_all add: s1_def\<close>)
  have per: "ctx_base s1 c' d' \<and> ctx_phase s1 c' d'" if at: "ctx_at s1 c' = Some d'" for c' d'
  proof -
    from at have old: "ctx_at s c' = Some d'" by (simp add: at1)
    have "ctx_base s1 c' d'" using all [OF old, THEN conjunct1]
      by (rule ctx_base_cong) (simp_all add: cnt at1, simp add: s1_def)
    moreover have "ctx_phase s1 c' d'" using all [OF old, THEN conjunct2]
      by (rule ctx_phase_cong) (simp_all add: cnt)
    ultimately show ?thesis ..
  qed
  have "sound fs 0 s1"
    unfolding sound_def using g1 per by blast
  then show ?thesis by (simp add: eq)
qed

lemma listing_op_phase:
  assumes "ctx_phase s c d" and "pending s = xs @ op # ys"
    and "kind_of op = Listing" "op_ctx op = c"
  shows "nops (xs @ ys) Listing c = 0 \<and> nops (xs @ ys) Dir_delete c = 0"
  using assms
  by (auto simp: ctx_phase_def listing_phase_def waiting_phase_def deleting_phase_def)

lemma batch_empty_sound:
  assumes snd: "sound fs 0 s"
    and pend: "pending s = xs @ Next_files e n p k c # ys"
    and empty: "take n (remaining e) = []"
  shows "sound fs 0 (on_next_files (e\<lparr>remaining := drop n (remaining e)\<rparr>) (Inr []) c
           (emit ev (s\<lparr>pending := xs @ ys\<rparr>)))"
proof -
  let ?op = "Next_files e n p k c"
  let ?e = "e\<lparr>remaining := drop n (remaining e)\<rparr>"
  let ?off = "\<lambda>x. x\<lparr>have_more_files := False\<rparr>"
  from snd have g: "globals_ok fs 0 s" by (simp add: sound_def)
  from snd have all: "\<And>c' d'. ctx_at s c' = Some d' \<Longrightarrow> ctx_base s c' d' \<and> ctx_phase s c' d'"
    by (simp add: sound_def)
  from g pend have ok: "op_ok fs s ?op" by (simp add: globals_ok_def)
  then obtain d where d: "ctx_at s c = Some d" by (auto simp: op_ok_def)
  from ok have "0 < n" by (simp add: op_ok_def)
  with empty have rem: "remaining e = []" by (cases "remaining e") simp_all
  define s1 where "s1 = g_file_enumerator_close ?e (modify c ?off (emit ev (s\<lparr>pending := xs @ ys\<rparr>)))"
  have eq: "on_next_files ?e (Inr []) c (emit ev (s\<lparr>pending := xs @ ys\<rparr>)) = check_no_children c s1"
    using d by (simp add: on_next_files_def next_files_head_def s1_def)
  have c1: "ctx_at s1 c = Some (?off d)" using d by (simp add: s1_def g_file_enumerator_close_def)
  have g1: "globals_ok fs 0 s1"
  proof (rule local_change(1) [where s = s and c = c and k = 0])
    show "globals_ok fs 0 s" by (rule g)
    show "unat (files_deleted s1) + sum_list (map (weight fs) (pending s1)) + 0 =
          unat (files_deleted s) + sum_list (map (weight fs) (pending s)) + 0"
      using rem by (simp add: s1_def pend g_file_enumerator_close_def)
    show "op \<in> set (pending s1) \<Longrightarrow> op \<in> set (pending s) \<or> op_ctx op = c \<and> op_shape fs op" for op
      by (auto simp: s1_def pend g_file_enumerator_close_def)
  qed (use all d c1 in \<open>simp_all, simp_all add: s1_def g_file_enumerator_close_def pend\<close>)
  have oth: "ctx_base s1 c' d' \<and> ctx_phase s1 c' d'" if "c' \<noteq> c" "ctx_at s1 c' = Some d'" for c' d'
  proof (rule local_change(2) [where s = s and c = c and k = 0 and fs = fs and ?k1.0 = 0, OF g _ _ _ _ _ _ _ _ _ _ _ _ that])
    show "unat (files_deleted s1) + sum_list (map (weight fs) (pending s1)) + 0 =
          unat (files_deleted s) + sum_list (map (weight fs) (pending s)) + 0"
      using rem by (simp add: s1_def pend g_file_enumerator_close_def)
    show "op \<in> set (pending s1) \<Longrightarrow> op \<in> set (pending s) \<or> op_ctx op = c \<and> op_shape fs op" for op
      by (auto simp: s1_def pend g_file_enumerator_close_def)
  qed (use all d c1 in \<open>simp_all, simp_all add: s1_def g_file_enumerator_close_def pend\<close>)
  have base: "ctx_base s1 c (?off d)"
    using all [OF d, THEN conjunct1]
    by (simp add: ctx_base_def s1_def pend g_file_enumerator_close_def)
  have un: "unchecked_phase (nops (pending s1) Listing c) (nops (pending s1) Dir_delete c) (?off d)"
    using listing_op_phase [OF all [OF d, THEN conjunct2] pend]
    by (simp add: unchecked_phase_def s1_def g_file_enumerator_close_def)
  have "awaiting_check fs 0 c s1"
    unfolding awaiting_check_def
  proof (intro conjI allI impI)
    show "globals_ok fs 0 s1" by (rule g1)
    from c1 un show "\<exists>d. ctx_at s1 c = Some d \<and>
        unchecked_phase (nops (pending s1) Listing c) (nops (pending s1) Dir_delete c) d"
      by blast
  next
    fix c' d' assume at: "ctx_at s1 c' = Some d'"
    show "ctx_base s1 c' d'"
      using oth [OF _ at] base c1 at by (cases "c' = c") simp_all
  next
    fix c' d' assume "ctx_at s1 c' = Some d'" "c' \<noteq> c"
    then show "ctx_phase s1 c' d'" using oth by blast
  qed
  then show ?thesis unfolding eq by (rule check_restores)
qed

lemma rm_rf_async_alt:
  "rm_rf_async f prio canc cb s =
     issue (first_listing f prio canc (length (heap s)))
       (s\<lparr>heap := heap s @ [Some (fresh_ctx f prio canc cb)]\<rparr>)"
  by (simp add: rm_rf_async_def fresh_ctx_def first_listing_def
      g_file_enumerate_children_async_def)

lemma obs_rm_rf_async [simp]:
  "length (heap (rm_rf_async f prio canc cb s)) = Suc (length (heap s))"
  "pending (rm_rf_async f prio canc cb s) = pending s @ [first_listing f prio canc (length (heap s))]"
  "files_deleted (rm_rf_async f prio canc cb s) = files_deleted s"
  "loop_running (rm_rf_async f prio canc cb s) = loop_running s"
  "timer (rm_rf_async f prio canc cb s) = timer s"
  "stdout (rm_rf_async f prio canc cb s) = stdout s"
  "stderr (rm_rf_async f prio canc cb s) = stderr s"
  "exit_status (rm_rf_async f prio canc cb s) = exit_status s"
  "fault (rm_rf_async f prio canc cb s) = fault s"
  "trace (rm_rf_async f prio canc cb s) =
     Issue (first_listing f prio canc (length (heap s))) # trace s"
  by (simp_all add: rm_rf_async_alt)

lemma ctx_at_rm_rf_async [simp]:
  "ctx_at (rm_rf_async f prio canc cb s) q =
     (if q = length (heap s) then Some (fresh_ctx f prio canc cb) else ctx_at s q)"
  by (auto simp: rm_rf_async_alt ctx_at_def issue_def emit_def nth_append)

lemma kids_rm_rf_async [simp]:
  "kids (rm_rf_async f prio canc cb s) q = kids s q + (if cb = On_rm_rf_complete q then 1 else 0)"
  by (simp add: rm_rf_async_alt kids_def issue_def emit_def fresh_ctx_def)

lemma live_rm_rf_async [simp]: "live (rm_rf_async f prio canc cb s) = Suc (live s)"
  by (simp add: rm_rf_async_alt live_def issue_def emit_def)

lemma first_listing_simps [simp]:
  "op_ctx (first_listing f prio canc c) = c"
  "kind_of (first_listing f prio canc c) = Listing"
  "weight fs (first_listing f prio canc c) = size_at fs (rel f) - 1"
  "op_shape fs (first_listing f prio canc c) = is_dir_at fs (rel f)"
  by (simp_all add: first_listing_def)

lemma fresh_ctx_simps [simp]:
  "num_files_pending (fresh_ctx f prio canc cb) = 0"
  "have_more_files (fresh_ctx f prio canc cb) = False"
  "result (fresh_ctx f prio canc cb) = \<lparr>source_object = f, callback = cb, res_error = None\<rparr>"
  "priority (fresh_ctx f prio canc cb) = prio"
  "cancellable (fresh_ctx f prio canc cb) = canc"
  "ctx_file (fresh_ctx f prio canc cb) = f"
  by (simp_all add: fresh_ctx_def)

lemma ctx_at_lt: "ctx_at s q = Some d \<Longrightarrow> q < length (heap s)"
  by (simp add: ctx_at_def split: if_splits)

lemma ctx_at_beyond [simp]: "ctx_at s (length (heap s)) = None"
  by (simp add: ctx_at_def)

lemma no_ops_of_dead:
  "\<forall>op\<in>set ops. ctx_at s (op_ctx op) \<noteq> None \<Longrightarrow> ctx_at s q = None \<Longrightarrow> nops ops k q = 0"
  by (induction ops) auto

lemma no_kids_of_dead:
  assumes "\<And>c d. ctx_at s c = Some d \<Longrightarrow> sink_ok s c (callback (result d))"
    and "ctx_at s q = None"
  shows "kids s q = 0"
proof -
  have "\<not> is_kid q x" if "x \<in> set (heap s)" for x
  proof (cases x)
    case None
    then show ?thesis by simp
  next
    case (Some d)
    from that obtain j where j: "j < length (heap s)" "heap s ! j = x"
      by (auto simp: in_set_conv_nth)
    with Some have "ctx_at s j = Some d" by (simp add: ctx_at_def)
    from assms(1) [OF this] assms(2) have "callback (result d) \<noteq> On_rm_rf_complete q"
      by (cases "callback (result d)") auto
    with Some show ?thesis by simp
  qed
  then show ?thesis by (simp add: kids_def)
qed

lemma rel_child [simp]: "rel (g_file_get_child parent name) = rel parent @ [name]"
  by (cases parent) simp

lemma pending_le_todo:
  "ctx_base s c d \<Longrightarrow> unat (num_files_pending d) \<le> todo fs s"
  using leaf_le_weight [of "pending s" c fs] kids_le_live [of s c]
  by (simp add: ctx_base_def todo_def)

lemma directory_entry:
  "query_info G_FILE_QUERY_INFO_NOFOLLOW_SYMLINKS nd = i \<Longrightarrow>
   (info_type i = G_FILE_TYPE_DIRECTORY) = is_dir nd"
  by (cases "(G_FILE_QUERY_INFO_NOFOLLOW_SYMLINKS, nd)" rule: node_type.cases)
    (auto simp: query_info_def)

lemma leaf_size: "\<not> is_dir nd \<Longrightarrow> tree_size nd = 1"
  by (cases nd) simp_all

lemma dispatch_sound:
  assumes snd: "sound fs (size_at fs (rel parent @ [info_name i]) + k) s"
    and d: "ctx_at s c = Some d" and hm: "have_more_files d"
    and ent: "entry_ok fs parent i"
    and bound: "tree_size fs < 2 ^ 32"
  shows "sound fs k (dispatch_entry c parent s i) \<and>
         (\<exists>d'. ctx_at (dispatch_entry c parent s i) c = Some d' \<and> have_more_files d')"
proof -
  let ?inc = "\<lambda>x. x\<lparr>num_files_pending := num_files_pending x + 1\<rparr>"
  let ?child = "g_file_get_child parent (g_file_info_get_name i)"
  let ?w = "size_at fs (rel parent @ [info_name i])"
  define s1 where "s1 = emit (Incr c) (modify c ?inc s)"
  from snd have g: "globals_ok fs (?w + k) s" by (simp add: sound_def)
  from snd have all: "\<And>c' d'. ctx_at s c' = Some d' \<Longrightarrow> ctx_base s c' d' \<and> ctx_phase s c' d'"
    by (simp add: sound_def)
  from ent obtain nd where look: "lookup fs (rel parent @ [info_name i]) = Some nd"
    and qi: "query_info G_FILE_QUERY_INFO_NOFOLLOW_SYMLINKS nd = i"
    by (auto simp: entry_ok_def split: option.splits)
  have w: "?w = tree_size nd" using look by (simp add: size_at_def)
  have cnt: "unat (files_deleted s) + todo fs s + tree_size nd + k = tree_size fs"
    using g w by (simp add: globals_ok_def)
  have "unat (num_files_pending d) \<le> todo fs s"
    using all [OF d, THEN conjunct1] by (rule pending_le_todo)
  with cnt bound tree_size_pos [of nd] have "unat (num_files_pending d) + 1 < 2 ^ 32"
    by linarith
  then have inc: "unat (num_files_pending d + 1) = unat (num_files_pending d) + 1"
    by (rule unat_succ32)
  have c1: "ctx_at s1 c = Some (?inc d)" using d by (simp add: s1_def)
  have lp: "nops (pending s) Listing c = Suc 0 \<and> nops (pending s) Dir_delete c = 0"
    using all [OF d, THEN conjunct2] hm
    by (auto simp: ctx_phase_def listing_phase_def waiting_phase_def deleting_phase_def)
  have bd: "ctx_base s c d" using all [OF d] by simp
  have cm: "c < length (heap s)" using d by (rule ctx_at_lt)
  have opl: "\<forall>op\<in>set (pending s). ctx_at s (op_ctx op) \<noteq> None"
    using g by (simp add: globals_ok_def op_ok_def)
  have snk: "\<And>c' d'. ctx_at s c' = Some d' \<Longrightarrow> sink_ok s c' (callback (result d'))"
    using all by (simp add: ctx_base_def)
  show ?thesis
  proof (cases "info_type i = G_FILE_TYPE_DIRECTORY")
    case True
    let ?m = "length (heap s)"
    let ?fresh = "fresh_ctx ?child (priority d) (cancellable d) (On_rm_rf_complete c)"
    define s2 where "s2 = rm_rf_async ?child (priority d) (cancellable d) (On_rm_rf_complete c) s1"
    have eq: "dispatch_entry c parent s i = s2"
      using d True by (simp add: dispatch_entry_def s1_def s2_def g_file_info_get_file_type_def Let_def)
    have len1: "length (heap s1) = ?m" by (simp add: s1_def)
    from True qi have "is_dir nd" by (simp add: directory_entry)
    with look have isd: "is_dir_at fs (rel parent @ [g_file_info_get_name i])"
      by (simp add: g_file_info_get_name_def)
    have at2: "ctx_at s2 q = (if q = ?m then Some ?fresh else if q = c then Some (?inc d) else ctx_at s q)" for q
      using d by (simp add: s2_def len1) (simp add: s1_def)
    have mono: "ctx_at s q \<noteq> None \<Longrightarrow> ctx_at s2 q \<noteq> None" for q
      by (simp add: at2)
    have pend2: "pending s2 = pending s @ [first_listing ?child (priority d) (cancellable d) ?m]"
      by (simp add: s2_def len1) (simp add: s1_def)
    have kids2: "kids s2 q = kids s q + (if q = c then 1 else 0)" for q
      by (auto simp: s2_def s1_def)
    have live2: "live s2 = Suc (live s)" by (simp add: s2_def s1_def)
    have sz: "size_at fs (rel ?child) = tree_size nd"
      using look by (simp add: size_at_def g_file_info_get_name_def)
    have g2: "globals_ok fs k s2"
      unfolding globals_ok_def
    proof (intro conjI)
      show "\<not> fault s2" "exit_status s2 = None"
        using g by (simp_all add: s2_def s1_def globals_ok_def)
      show "\<forall>op\<in>set (pending s2). op_ok fs s2 op"
      proof
        fix op assume "op \<in> set (pending s2)"
        then consider "op \<in> set (pending s)"
          | "op = first_listing ?child (priority d) (cancellable d) ?m"
          by (auto simp: pend2)
        then show "op_ok fs s2 op"
        proof cases
          case 1
          with g have "op_ok fs s op" by (simp add: globals_ok_def)
          then show ?thesis by (rule op_ok_mono) (rule mono)
        next
          case 2
          then show ?thesis using isd by (simp add: op_ok_def at2)
        qed
      qed
      show "unat (files_deleted s2) + todo fs s2 + k = tree_size fs"
        using cnt tree_size_pos [of nd] sz
        by (simp add: todo_def live2 pend2) (simp add: s2_def s1_def todo_def)
      show "loop_running s2 = (ctx_at s2 0 \<noteq> None)"
        using g cm d by (auto simp: globals_ok_def at2) (simp_all add: s2_def s1_def)
    qed
    have dead: "ctx_at s ?m = None" by simp
    have per: "ctx_base s2 q dq \<and> ctx_phase s2 q dq" if at: "ctx_at s2 q = Some dq" for q dq
    proof -
      consider (new) "q = ?m" | (own) "q = c" "q \<noteq> ?m" | (other) "q \<noteq> ?m" "q \<noteq> c"
        by blast
      then show ?thesis
      proof cases
        case new
        with at have dq: "dq = ?fresh" by (simp add: at2)
        have z: "nops (pending s) kd ?m = 0" for kd
          using opl dead by (rule no_ops_of_dead)
        have kz: "kids s ?m = 0" using snk dead by (rule no_kids_of_dead)
        have "ctx_base s2 ?m ?fresh"
          using cm z kz by (simp add: ctx_base_def pend2 kids2 at2)
        moreover have "ctx_phase s2 ?m ?fresh"
          using z by (simp add: ctx_phase_def listing_phase_def pend2)
        ultimately show ?thesis using new dq by simp
      next
        case own
        with at have dq: "dq = ?inc d" by (simp add: at2)
        have "sink_ok s2 c (callback (result d))"
          using bd mono by (auto simp: ctx_base_def intro: sink_ok_mono)
        then have "ctx_base s2 c (?inc d)"
          using bd inc cm by (simp add: ctx_base_def pend2 kids2)
        moreover have "ctx_phase s2 c (?inc d)"
          using lp hm cm by (simp add: ctx_phase_def listing_phase_def pend2)
        ultimately show ?thesis using own dq by simp
      next
        case other
        with at have old: "ctx_at s q = Some dq" by (simp add: at2)
        have "ctx_base s2 q dq"
          using all [OF old, THEN conjunct1]
          by (rule ctx_base_cong) (use other mono in \<open>simp_all add: pend2 kids2\<close>)
        moreover have "ctx_phase s2 q dq"
          using all [OF old, THEN conjunct2]
          by (rule ctx_phase_cong) (use other in \<open>simp_all add: pend2\<close>)
        ultimately show ?thesis ..
      qed
    qed
    have "sound fs k s2" unfolding sound_def using g2 per by blast
    moreover have "\<exists>d'. ctx_at s2 c = Some d' \<and> have_more_files d'"
      using hm cm by (simp add: at2)
    ultimately show ?thesis by (simp add: eq)
  next
    case False
    let ?new = "Delete_file ?child (priority d) None On_file_deleted c"
    define s2 where "s2 = issue ?new s1"
    have eq: "dispatch_entry c parent s i = s2"
      using d False
      by (simp add: dispatch_entry_def s1_def s2_def g_file_info_get_file_type_def Let_def
          g_file_delete_async_def)
    from False qi have "\<not> is_dir nd" by (simp add: directory_entry)
    then have one: "tree_size nd = 1" by (rule leaf_size)
    have at2: "ctx_at s2 q = (if q = c then Some (?inc d) else ctx_at s q)" for q
      using d by (simp add: s2_def s1_def)
    have pend2: "pending s2 = pending s @ [?new]" by (simp add: s2_def s1_def)
    have g2: "globals_ok fs k s2"
    proof (rule local_change(1) [where s = s and c = c and k = "?w + k"])
      show "globals_ok fs (?w + k) s" by (rule g)
      show "unat (files_deleted s2) + sum_list (map (weight fs) (pending s2)) + k =
            unat (files_deleted s) + sum_list (map (weight fs) (pending s)) + (?w + k)"
        using w one by (simp add: pend2) (simp add: s2_def s1_def)
      show "op \<in> set (pending s2) \<Longrightarrow> op \<in> set (pending s) \<or> op_ctx op = c \<and> op_shape fs op" for op
        by (auto simp: pend2)
    qed (use all d in \<open>simp_all add: at2 pend2, simp_all add: s2_def s1_def\<close>)
    have oth: "ctx_base s2 c' d' \<and> ctx_phase s2 c' d'" if "c' \<noteq> c" "ctx_at s2 c' = Some d'" for c' d'
    proof (rule local_change(2) [where s = s and c = c and k = "?w + k" and fs = fs and ?k1.0 = k,
          OF g _ _ _ _ _ _ _ _ _ _ _ _ that])
      show "unat (files_deleted s2) + sum_list (map (weight fs) (pending s2)) + k =
            unat (files_deleted s) + sum_list (map (weight fs) (pending s)) + (?w + k)"
        using w one by (simp add: pend2) (simp add: s2_def s1_def)
      show "op \<in> set (pending s2) \<Longrightarrow> op \<in> set (pending s) \<or> op_ctx op = c \<and> op_shape fs op" for op
        by (auto simp: pend2)
    qed (use all d in \<open>simp_all add: at2 pend2, simp_all add: s2_def s1_def\<close>)
    have "ctx_base s2 c (?inc d)"
      using bd inc by (simp add: ctx_base_def pend2) (simp add: s2_def s1_def)
    moreover have "ctx_phase s2 c (?inc d)"
      using lp hm by (simp add: ctx_phase_def listing_phase_def pend2)
    ultimately have per: "ctx_base s2 q dq \<and> ctx_phase s2 q dq" if "ctx_at s2 q = Some dq" for q dq
      using that oth [of q dq] by (cases "q = c") (simp_all add: at2)
    have "sound fs k s2" unfolding sound_def using g2 per by blast
    moreover have "\<exists>d'. ctx_at s2 c = Some d' \<and> have_more_files d'"
      using hm by (simp add: at2)
    ultimately show ?thesis by (simp add: eq)
  qed
qed

lemma dispatch_loop_sound:
  assumes bound: "tree_size fs < 2 ^ 32"
  shows "sound fs (sum_list (map (\<lambda>i. size_at fs (rel parent @ [info_name i])) files) + k) s \<Longrightarrow>
         ctx_at s c = Some d \<Longrightarrow> have_more_files d \<Longrightarrow>
         \<forall>i\<in>set files. entry_ok fs parent i \<Longrightarrow>
         sound fs k (foldl (dispatch_entry c parent) s files)"
proof (induction files arbitrary: s d)
  case Nil
  then show ?case by simp
next
  case (Cons i files)
  let ?rest = "sum_list (map (\<lambda>i. size_at fs (rel parent @ [info_name i])) files)"
  from Cons.prems(1)
  have "sound fs (size_at fs (rel parent @ [info_name i]) + (?rest + k)) s"
    by (simp add: add.assoc)
  from dispatch_sound [OF this Cons.prems(2,3) _ bound] Cons.prems(4)
  obtain d' where "sound fs (?rest + k) (dispatch_entry c parent s i)"
    and "ctx_at (dispatch_entry c parent s i) c = Some d'" "have_more_files d'"
    by auto
  from Cons.IH [OF this] Cons.prems(4) show ?case by simp
qed

lemma sum_take_drop:
  "sum_list (map f (take n xs)) + sum_list (map f (drop n xs)) = sum_list (map f xs)"
  by (metis append_take_drop_id map_append sum_list.append)

lemma sound_ops: "sound fs k s \<Longrightarrow> op \<in> set (pending s) \<Longrightarrow> op_ok fs s op"
  by (simp add: sound_def globals_ok_def)

lemma batch_head_sound:
  assumes snd: "sound fs 0 s"
    and pend: "pending s = xs @ Next_files e n p k c # ys"
    and d: "ctx_at s c = Some d"
  shows "sound fs
           (sum_list (map (\<lambda>i. size_at fs (rel (container e) @ [info_name i])) (take n (remaining e))) + 0)
           (issue (Next_files (e\<lparr>remaining := drop n (remaining e)\<rparr>) 20 G_PRIORITY_DEFAULT None c)
              (modify c (\<lambda>x. x\<lparr>have_more_files := True\<rparr>) (emit ev (s\<lparr>pending := xs @ ys\<rparr>))))"
    and "\<forall>i\<in>set (take n (remaining e)). entry_ok fs (container e) i"
proof -
  let ?op = "Next_files e n p k c"
  let ?e = "e\<lparr>remaining := drop n (remaining e)\<rparr>"
  let ?files = "take n (remaining e)"
  let ?on = "\<lambda>x. x\<lparr>have_more_files := True\<rparr>"
  let ?new = "Next_files ?e 20 G_PRIORITY_DEFAULT None c"
  let ?f = "\<lambda>i. size_at fs (rel (container e) @ [info_name i])"
  from snd have g: "globals_ok fs 0 s" by (simp add: sound_def)
  from snd have all: "\<And>c' d'. ctx_at s c' = Some d' \<Longrightarrow> ctx_base s c' d' \<and> ctx_phase s c' d'"
    by (simp add: sound_def)
  from g pend have ok: "op_ok fs s ?op" by (simp add: globals_ok_def)
  from ok have ents: "\<forall>i\<in>set (remaining e). entry_ok fs (container e) i" by (simp add: op_ok_def)
  then show "\<forall>i\<in>set ?files. entry_ok fs (container e) i" by (auto dest: in_set_takeD)
  define s1 where "s1 = issue ?new (modify c ?on (emit ev (s\<lparr>pending := xs @ ys\<rparr>)))"
  have c1: "ctx_at s1 c = Some (?on d)" using d by (simp add: s1_def)
  have pend1: "pending s1 = xs @ ys @ [?new]" by (simp add: s1_def)
  have shape: "op_shape fs ?new"
    using ents by (auto dest: in_set_dropD)
  have wsum: "unat (files_deleted s1) + sum_list (map (weight fs) (pending s1)) + sum_list (map ?f ?files) =
          unat (files_deleted s) + sum_list (map (weight fs) (pending s)) + 0"
    using sum_take_drop [of ?f n "remaining e"] by (simp add: pend1 pend) (simp add: s1_def)
  have g1: "globals_ok fs (sum_list (map ?f ?files)) s1"
  proof (rule local_change(1) [where s = s and c = c and k = 0])
    show "globals_ok fs 0 s" by (rule g)
    show "op \<in> set (pending s1) \<Longrightarrow> op \<in> set (pending s) \<or> op_ctx op = c \<and> op_shape fs op" for op
      using shape by (auto simp: pend1 pend)
  qed (use all d c1 wsum in \<open>simp_all, simp_all add: s1_def pend\<close>)
  have oth: "ctx_base s1 c' d' \<and> ctx_phase s1 c' d'" if "c' \<noteq> c" "ctx_at s1 c' = Some d'" for c' d'
  proof (rule local_change(2) [where s = s and c = c and k = 0 and fs = fs
        and ?k1.0 = "sum_list (map ?f ?files)", OF g _ _ _ _ _ _ _ _ _ _ _ _ that])
    show "op \<in> set (pending s1) \<Longrightarrow> op \<in> set (pending s) \<or> op_ctx op = c \<and> op_shape fs op" for op
      using shape by (auto simp: pend1 pend)
  qed (use all d c1 wsum in \<open>simp_all, simp_all add: s1_def pend\<close>)
  have "ctx_base s1 c (?on d)"
    using all [OF d, THEN conjunct1] by (simp add: ctx_base_def pend1 pend) (simp add: s1_def)
  moreover have "ctx_phase s1 c (?on d)"
    using listing_op_phase [OF all [OF d, THEN conjunct2] pend]
    by (simp add: ctx_phase_def listing_phase_def pend1)
  ultimately have per: "ctx_base s1 q dq \<and> ctx_phase s1 q dq" if "ctx_at s1 q = Some dq" for q dq
    using that oth [of q dq] c1 by (cases "q = c") simp_all
  have "sound fs (sum_list (map ?f ?files) + 0) s1"
    unfolding sound_def using g1 per by simp
  then show "sound fs (sum_list (map ?f ?files) + 0) (issue ?new (modify c ?on (emit ev (s\<lparr>pending := xs @ ys\<rparr>))))"
    by (simp add: s1_def)
qed

lemma batch_shape:
  assumes d: "ctx_at s c = Some d" and nonempty: "files \<noteq> []"
  shows "on_next_files e (Inr files) c s =
         foldl (dispatch_entry c (container e))
           (issue (Next_files e 20 G_PRIORITY_DEFAULT None c)
              (modify c (\<lambda>x. x\<lparr>have_more_files := True\<rparr>) s)) files"
  using d nonempty
  by (simp add: on_next_files_def next_files_head_def
      g_file_enumerator_next_files_async_def g_file_enumerator_get_container_def)

lemma batch_sound:
  assumes snd: "sound fs 0 s"
    and pend: "pending s = xs @ Next_files e n p k c # ys"
    and nonempty: "take n (remaining e) \<noteq> []"
    and bound: "tree_size fs < 2 ^ 32"
  shows "sound fs 0 (on_next_files (e\<lparr>remaining := drop n (remaining e)\<rparr>)
           (Inr (take n (remaining e))) c (emit ev (s\<lparr>pending := xs @ ys\<rparr>)))"
proof -
  let ?on = "\<lambda>x. x\<lparr>have_more_files := True\<rparr>"
  let ?s0 = "emit ev (s\<lparr>pending := xs @ ys\<rparr>)"
  from sound_ops [OF snd, of "Next_files e n p k c"] pend
  obtain d where d: "ctx_at s c = Some d" by (auto simp: op_ok_def)
  then have d0: "ctx_at ?s0 c = Some d" by simp
  have c1: "ctx_at (issue (Next_files (e\<lparr>remaining := drop n (remaining e)\<rparr>) 20 G_PRIORITY_DEFAULT None c)
              (modify c ?on ?s0)) c = Some (?on d)"
    using d by simp
  from dispatch_loop_sound [OF bound batch_head_sound(1) [OF snd pend d] c1]
    batch_head_sound(2) [OF snd pend d]
  show ?thesis by (simp add: batch_shape [OF d0 nonempty])
qed

lemma nops_zero_ctx:
  "(\<And>kd. nops ops kd c = 0) \<Longrightarrow> op \<in> set ops \<Longrightarrow> op_ctx op \<noteq> c"
proof (induction ops)
  case Nil
  then show ?case by simp
next
  case (Cons a ops)
  from Cons.prems(1) [of "kind_of a"] have a: "op_ctx a \<noteq> c" by (auto split: if_splits)
  have "nops ops kd c = 0" for kd using Cons.prems(1) [of kd] by simp
  with Cons.IH Cons.prems(2) a show ?case by auto
qed

lemma kids_zero:
  assumes "kids s c = 0" "ctx_at s q = Some dq"
  shows "callback (result dq) \<noteq> On_rm_rf_complete c"
proof
  assume "callback (result dq) = On_rm_rf_complete c"
  then have "is_kid c (Some dq)" by simp
  moreover from assms(2) have "Some dq \<in> set (heap s)"
    by (auto simp: ctx_at_def in_set_conv_nth split: if_splits)
  ultimately have "Some dq \<in> set (filter (is_kid c) (heap s))"
    by simp
  then have "0 < length (filter (is_kid c) (heap s))" by (rule length_pos_if_in_set)
  with assms(1) show False by (simp add: kids_def)
qed

lemma live_pos: "ctx_at s c = Some d \<Longrightarrow> 0 < live s"
proof -
  assume "ctx_at s c = Some d"
  then have "Some d \<in> set (heap s)"
    by (auto simp: ctx_at_def in_set_conv_nth split: if_splits)
  then have "Some d \<in> set (filter (\<lambda>x. x \<noteq> None) (heap s))"
    by simp
  then have "0 < length (filter (\<lambda>x. x \<noteq> None) (heap s))" by (rule length_pos_if_in_set)
  then show ?thesis by (simp add: live_def)
qed

lemma obs_quit [simp]:
  "heap (g_main_loop_quit s) = heap s" "pending (g_main_loop_quit s) = pending s"
  "files_deleted (g_main_loop_quit s) = files_deleted s"
  "loop_running (g_main_loop_quit s) = False"
  "timer (g_main_loop_quit s) = timer s" "stdout (g_main_loop_quit s) = stdout s"
  "stderr (g_main_loop_quit s) = stderr s" "exit_status (g_main_loop_quit s) = exit_status s"
  "fault (g_main_loop_quit s) = fault s" "trace (g_main_loop_quit s) = trace s"
  "ctx_at (g_main_loop_quit s) q = ctx_at s q" "kids (g_main_loop_quit s) q = kids s q"
  "live (g_main_loop_quit s) = live s"
  by (simp_all add: g_main_loop_quit_def)

lemma todo_free:
  "ctx_at s c = Some d \<Longrightarrow> Suc (todo fs (g_free c s)) = todo fs s"
  using live_free [of s c d] by (simp add: todo_def)

lemma check_keeps_status:
  "ctx_at s p \<noteq> None \<Longrightarrow>
   exit_status (check_no_children p s) = exit_status s \<and> fault (check_no_children p s) = fault s"
  by (auto simp: check_no_children_def g_file_delete_async_def split: if_splits)

lemma free_issue: "g_free c (issue op s) = issue op (g_free c s)"
  by (simp add: g_free_def issue_def emit_def)

lemma free_check_commute:
  assumes "c \<noteq> p"
  shows "g_free c (check_no_children p s) = check_no_children p (g_free c s)"
proof (cases "ctx_at s p")
  case None
  then have "ctx_at (g_free c s) p = None" by simp
  with None show ?thesis
    by (simp add: check_no_children_def use_after_free_def g_free_def)
next
  case (Some d)
  with assms have "ctx_at (g_free c s) p = Some d" by simp
  with Some show ?thesis
    by (simp add: check_no_children_def g_file_delete_async_def free_issue)
qed

lemma dir_deleted_sound:
  assumes snd: "sound fs 0 s"
    and pend: "pending s = xs @ Delete_file f p k On_end_directory_deleted c # ys"
    and bound: "tree_size fs < 2 ^ 32"
  shows "sound fs 0 (on_end_directory_deleted c None (emit ev (s\<lparr>pending := xs @ ys\<rparr>)))"
proof -
  let ?op = "Delete_file f p k On_end_directory_deleted c"
  let ?dec = "\<lambda>x. x\<lparr>num_files_pending := num_files_pending x - 1\<rparr>"
  define s0 where "s0 = emit (Complete c)
    ((emit ev (s\<lparr>pending := xs @ ys\<rparr>))\<lparr>files_deleted := files_deleted s + 1\<rparr>)"
  from snd have g: "globals_ok fs 0 s" by (simp add: sound_def)
  from snd have all: "\<And>c' d'. ctx_at s c' = Some d' \<Longrightarrow> ctx_base s c' d' \<and> ctx_phase s c' d'"
    by (simp add: sound_def)
  from g pend have "op_ok fs s ?op" by (simp add: globals_ok_def)
  then obtain d where d: "ctx_at s c = Some d" by (auto simp: op_ok_def)
  have bd: "ctx_base s c d" using all [OF d] by simp
  have del: "nops (xs @ ys) Listing c = 0 \<and> nops (xs @ ys) Dir_delete c = 0 \<and>
             num_files_pending d = 0"
    using all [OF d, THEN conjunct2] pend
    by (auto simp: ctx_phase_def listing_phase_def waiting_phase_def deleting_phase_def)
  with bd pend have none: "nops (xs @ ys) Leaf_delete c = 0" and nokids: "kids s c = 0"
    by (simp_all add: ctx_base_def)
  have "nops (xs @ ys) kd c = 0" for kd
    using del none by (cases kd) simp_all
  then have noc: "op \<in> set (xs @ ys) \<Longrightarrow> op_ctx op \<noteq> c" for op
    by (rule nops_zero_ctx)
  have notkid: "ctx_at s q = Some dq \<Longrightarrow> callback (result dq) \<noteq> On_rm_rf_complete c" for q dq
    using nokids by (rule kids_zero)
  have err: "res_error (result d) = None" using bd by (simp add: ctx_base_def)
  have snk: "sink_ok s c (callback (result d))" using bd by (simp add: ctx_base_def)
  have cnt: "unat (files_deleted s) + (live s + sum_list (map (weight fs) (xs @ ys))) = tree_size fs"
    using g pend by (simp add: globals_ok_def todo_def)
  with live_pos [OF d] bound have "unat (files_deleted s) + 1 < 2 ^ 32" by linarith
  then have fd: "unat (files_deleted s + 1) = unat (files_deleted s) + 1" by (rule unat_succ32)
  have at0: "ctx_at s0 q = ctx_at s q" for q by (simp add: s0_def)
  have opsok: "op \<in> set (xs @ ys) \<Longrightarrow> op_ok fs s op" for op
    using g pend by (auto simp: globals_ok_def)
  show ?thesis
  proof (cases "callback (result d)")
    case On_rm_finished
    with snk have c0: "c = 0" by simp
    define s2 where "s2 = g_free c (g_main_loop_quit s0)"
    have eq: "on_end_directory_deleted c None (emit ev (s\<lparr>pending := xs @ ys\<rparr>)) = s2"
      using d err On_rm_finished g
      by (simp add: on_end_directory_deleted_def g_simple_async_result_complete_def
          on_rm_finished_def rm_rf_finish_def s2_def s0_def globals_ok_def)
    have at2: "ctx_at s2 q = (if q = c then None else ctx_at s q)" for q
      by (simp add: s2_def at0)
    have pend2: "pending s2 = xs @ ys" by (simp add: s2_def s0_def)
    have kids2: "kids s2 q = kids s q" for q
      using kids_free [of "g_main_loop_quit s0" c d q] d On_rm_finished
      by (simp add: s2_def at0) (simp add: s0_def)
    have live2: "Suc (live s2) = live s"
      using live_free [of "g_main_loop_quit s0" c d] d
      by (simp add: s2_def at0) (simp add: s0_def)
    have g2: "globals_ok fs 0 s2"
      unfolding globals_ok_def
    proof (intro conjI)
      show "\<not> fault s2" "exit_status s2 = None"
        using g by (simp_all add: s2_def s0_def globals_ok_def)
      show "\<forall>op\<in>set (pending s2). op_ok fs s2 op"
        using opsok noc by (auto simp: pend2 op_ok_def at2)
      show "unat (files_deleted s2) + todo fs s2 + 0 = tree_size fs"
        using cnt fd live2 by (simp add: todo_def pend2) (simp add: s2_def s0_def)
      show "loop_running s2 = (ctx_at s2 0 \<noteq> None)"
        using c0 by (simp add: at2) (simp add: s2_def)
    qed
    have per: "ctx_base s2 q dq \<and> ctx_phase s2 q dq" if at: "ctx_at s2 q = Some dq" for q dq
    proof -
      from at have qc: "q \<noteq> c" and old: "ctx_at s q = Some dq"
        by (auto simp: at2 split: if_splits)
      from qc have cq: "c \<noteq> q" by simp
      have "sink_ok s2 q (callback (result dq))"
        using all [OF old, THEN conjunct1] notkid [OF old]
        by (cases "callback (result dq)") (auto simp: ctx_base_def at2)
      then have "ctx_base s2 q dq"
        using all [OF old, THEN conjunct1] cq by (simp add: ctx_base_def pend2 pend kids2)
      moreover have "ctx_phase s2 q dq"
        using all [OF old, THEN conjunct2]
        by (rule ctx_phase_cong) (simp_all add: pend2 pend cq)
      ultimately show ?thesis ..
    qed
    have "sound fs 0 s2" unfolding sound_def using g2 per by simp
    then show ?thesis by (simp add: eq)
  next
    case (On_rm_rf_complete par)
    with snk have pc: "par < c" and "ctx_at s par \<noteq> None" by simp_all
    then obtain dp where dp: "ctx_at s par = Some dp" by auto
    from pc have ne: "c \<noteq> par" "par \<noteq> c" by simp_all
    define s1 where "s1 = emit (Decr par) (modify par ?dec s0)"
    define s2 where "s2 = g_free c s1"
    have live1: "ctx_at s1 par \<noteq> None" using dp by (simp add: s1_def at0)
    have st: "exit_status (check_no_children par s1) = None \<and> \<not> fault (check_no_children par s1)"
      using check_keeps_status [OF live1] g by (simp add: s1_def s0_def globals_ok_def)
    have "on_end_directory_deleted c None (emit ev (s\<lparr>pending := xs @ ys\<rparr>)) =
          g_free c (check_no_children par s1)"
      using d dp err On_rm_rf_complete st
      by (simp add: on_end_directory_deleted_def g_simple_async_result_complete_def
          on_rm_rf_complete_def rm_rf_finish_def s1_def [symmetric] s0_def [symmetric] at0 Let_def)
    then have eq: "on_end_directory_deleted c None (emit ev (s\<lparr>pending := xs @ ys\<rparr>)) =
          check_no_children par s2"
      using ne by (simp add: free_check_commute s2_def)
    have at2: "ctx_at s2 q = (if q = c then None else if q = par then Some (?dec dp) else ctx_at s q)" for q
      using dp by (simp add: s2_def s1_def at0)
    have pend2: "pending s2 = xs @ ys" by (simp add: s2_def s1_def s0_def)
    have d1: "ctx_at s1 c = Some d" using d ne by (simp add: s1_def at0)
    have k1: "kids s1 q = kids s q" for q by (simp add: s1_def s0_def)
    have kids2: "kids s2 q + (if q = par then 1 else 0) = kids s q" for q
      using kids_free [OF d1, of q] On_rm_rf_complete k1 [of q]
      by (auto simp: s2_def split: if_splits)
    have live2: "Suc (live s2) = live s"
      using live_free [OF d1] by (simp add: s2_def) (simp add: s1_def s0_def)
    have g2: "globals_ok fs 0 s2"
      unfolding globals_ok_def
    proof (intro conjI)
      show "\<not> fault s2" "exit_status s2 = None"
        using g by (simp_all add: s2_def s1_def s0_def globals_ok_def)
      show "\<forall>op\<in>set (pending s2). op_ok fs s2 op"
        using opsok noc by (auto simp: pend2 op_ok_def at2)
      show "unat (files_deleted s2) + todo fs s2 + 0 = tree_size fs"
        using cnt fd live2 by (simp add: todo_def pend2) (simp add: s2_def s1_def s0_def)
      show "loop_running s2 = (ctx_at s2 0 \<noteq> None)"
        using g pc dp by (auto simp: at2 globals_ok_def) (simp_all add: s2_def s1_def s0_def)
    qed
    have bp: "ctx_base s par dp" using all [OF dp] by simp
    have Kp: "unat (num_files_pending dp) = Suc (nops (xs @ ys) Leaf_delete par + kids s2 par)"
      using bp kids2 [of par] ne by (simp add: ctx_base_def pend)
    then have nzp: "num_files_pending dp \<noteq> 0" by auto
    then have "unat (num_files_pending dp - 1) = unat (num_files_pending dp) - 1"
      by (rule unat_pred32)
    with Kp have decp: "unat (num_files_pending dp - 1) = nops (xs @ ys) Leaf_delete par + kids s2 par"
      by simp
    have per: "ctx_base s2 q dq \<and> (q \<noteq> par \<longrightarrow> ctx_phase s2 q dq)" if at: "ctx_at s2 q = Some dq" for q dq
    proof (cases "q = par")
      case True
      with at have dq: "dq = ?dec dp" by (simp add: at2 ne)
      have "sink_ok s2 par (callback (result dp))"
        using bp notkid [OF dp]
        by (cases "callback (result dp)") (auto simp: ctx_base_def at2)
      then have "ctx_base s2 par (?dec dp)"
        using bp decp by (simp add: ctx_base_def pend2)
      with True dq show ?thesis by simp
    next
      case False
      with at have qc: "q \<noteq> c" and old: "ctx_at s q = Some dq"
        by (auto simp: at2 split: if_splits)
      from qc have cq: "c \<noteq> q" by simp
      have "sink_ok s2 q (callback (result dq))"
        using all [OF old, THEN conjunct1] notkid [OF old]
        by (cases "callback (result dq)") (auto simp: ctx_base_def at2)
      then have "ctx_base s2 q dq"
        using all [OF old, THEN conjunct1] cq kids2 [of q] False
        by (simp add: ctx_base_def pend2 pend)
      moreover have "ctx_phase s2 q dq"
        using all [OF old, THEN conjunct2]
        by (rule ctx_phase_cong) (simp_all add: pend2 pend cq)
      ultimately show ?thesis by simp
    qed
    have un: "unchecked_phase (nops (pending s2) Listing par) (nops (pending s2) Dir_delete par) (?dec dp)"
      using all [OF dp, THEN conjunct2] nzp ne
      by (auto simp: ctx_phase_def unchecked_phase_def listing_phase_def waiting_phase_def
          deleting_phase_def pend2 pend)
    have "awaiting_check fs 0 par s2"
      unfolding awaiting_check_def
    proof (intro conjI allI impI)
      show "globals_ok fs 0 s2" by (rule g2)
      have "ctx_at s2 par = Some (?dec dp)" by (simp add: at2 ne)
      with un show "\<exists>d. ctx_at s2 par = Some d \<and>
          unchecked_phase (nops (pending s2) Listing par) (nops (pending s2) Dir_delete par) d"
        by blast
    qed (use per in blast)+
    then show ?thesis unfolding eq by (rule check_restores)
  qed
qed

lemma sound_output:
  "sound fs k (s\<lparr>stdout := out, timer := b\<rparr>) = sound fs k s"
proof -
  let ?s = "s\<lparr>stdout := out, timer := b\<rparr>"
  have at: "ctx_at ?s q = ctx_at s q" for q by (simp add: ctx_at_def)
  have snk: "sink_ok ?s q cb = sink_ok s q cb" for q cb
    by (rule sink_ok_same) (simp add: at)
  show ?thesis
    by (simp add: sound_def globals_ok_def ctx_base_def ctx_phase_def op_ok_def todo_def
        live_def kids_def at snk)
qed

lemma timeout_sound: "sound fs k s \<Longrightarrow> sound fs k (fire_timeout s)"
  by (simp add: fire_timeout_def print_progress_def sound_output)

lemma launch_sound:
  assumes dir: "is_dir fs"
  shows "sound fs 0 (launch p prio canc)"
proof -
  let ?s = "launch p prio canc"
  let ?f = "g_file_new_for_path p"
  have at: "ctx_at ?s q = (if q = 0 then Some (fresh_ctx ?f prio canc On_rm_finished) else None)" for q
    by (simp add: launch_def g_timeout_add_seconds_def rm_rf_async_alt init_state_def ctx_at_def
        issue_def emit_def)
  have pend: "pending ?s = [first_listing ?f prio canc 0]"
    by (simp add: launch_def g_timeout_add_seconds_def rm_rf_async_alt init_state_def issue_def
        emit_def)
  have kids: "kids ?s q = 0" for q
    by (simp add: launch_def g_timeout_add_seconds_def rm_rf_async_alt init_state_def issue_def
        emit_def kids_def fresh_ctx_def)
  have live: "live ?s = 1"
    by (simp add: launch_def g_timeout_add_seconds_def rm_rf_async_alt init_state_def issue_def
        emit_def live_def)
  have flags: "\<not> fault ?s" "exit_status ?s = None" "loop_running ?s" "files_deleted ?s = 0"
    by (simp_all add: launch_def g_timeout_add_seconds_def rm_rf_async_alt init_state_def issue_def
        emit_def)
  have "globals_ok fs 0 ?s"
    using tree_size_pos [of fs] dir
    by (simp add: globals_ok_def flags pend at op_ok_def todo_def live size_at_def
        g_file_new_for_path_def)
  moreover have "ctx_base ?s q dq \<and> ctx_phase ?s q dq" if "ctx_at ?s q = Some dq" for q dq
    using that
    by (auto simp: at ctx_base_def ctx_phase_def listing_phase_def pend kids split: if_splits)
  ultimately show ?thesis unfolding sound_def by blast
qed

lemma failure_exits:
  assumes "ctx_at s (op_ctx op) \<noteq> None"
  shows "exit_status (complete fs op (Some msg) s) = Some 1"
  using assms
  by (cases op; cases "ctx_at s (op_ctx op)")
    (auto simp: on_enumerate_children_def on_next_files_def on_file_deleted_def
      on_end_directory_deleted_def fatal_gerror_def split: delete_callback.splits)




lemma sound_status: "sound fs k s \<Longrightarrow> exit_status s = None \<and> \<not> fault s"
  by (simp add: sound_def globals_ok_def)

lemma sound_root: "sound fs k s \<Longrightarrow> loop_running s = (ctx_at s 0 \<noteq> None)"
  by (simp add: sound_def globals_ok_def)

lemma sound_count: "sound fs k s \<Longrightarrow> unat (files_deleted s) + todo fs s + k = tree_size fs"
  by (simp add: sound_def globals_ok_def)

lemma sound_ctx: "sound fs k s \<Longrightarrow> ctx_at s c = Some d \<Longrightarrow> ctx_base s c d \<and> ctx_phase s c d"
  by (simp add: sound_def)

subsection \<open>Reading the record of events\<close>

lemma dir_issues_simps [simp]:
  "dir_issues c [] = 0"
  "dir_issues c (ev # tr) = (if dir_issue_of ev = Some c then 1 else 0) + dir_issues c tr"
  by (simp_all add: dir_issues_def)

lemma deleted_simps [simp]:
  "deleted f [] = False"
  "deleted f (ev # tr) = (deletes_path f ev \<or> deleted f tr)"
  by (simp_all add: deleted_def)

lemma observed_simps [simp]:
  "observed c [] = []"
  "observed c (ev # tr) = seen c ev @ observed c tr"
  by (simp_all add: observed_def)

lemma exhausted_simps [simp]:
  "exhausted c [] = False"
  "exhausted c (ev # tr) = (closes c ev \<or> exhausted c tr)"
  by (simp_all add: exhausted_def)

lemma dispatched_simps [simp]:
  "dispatched f [] = False"
  "dispatched f (ev # tr) = (dispatches f ev \<or> dispatched f tr)"
  by (simp_all add: dispatched_def)

subsection \<open>The state against the record\<close>

subsection \<open>What must hold of the record alone\<close>

subsection \<open>How the steps of the program change these notions\<close>

lemma has_kid_ctx:
  "has_kid s c f =
     (\<exists>j d. ctx_at s j = Some d \<and> callback (result d) = On_rm_rf_complete c \<and> ctx_file d = f)"
proof
  assume "has_kid s c f"
  then obtain x where x: "x \<in> set (heap s)" "kid_for c f x" by (auto simp: has_kid_def)
  from x(2) obtain d where d: "x = Some d" by (cases x) auto
  from x(1) obtain j where "j < length (heap s)" "heap s ! j = x" by (auto simp: in_set_conv_nth)
  with d have "ctx_at s j = Some d" by (simp add: ctx_at_def)
  with x(2) d show "\<exists>j d. ctx_at s j = Some d \<and> callback (result d) = On_rm_rf_complete c \<and> ctx_file d = f"
    by auto
next
  assume "\<exists>j d. ctx_at s j = Some d \<and> callback (result d) = On_rm_rf_complete c \<and> ctx_file d = f"
  then obtain j d where jd: "ctx_at s j = Some d" "callback (result d) = On_rm_rf_complete c" "ctx_file d = f"
    by auto
  then have "Some d \<in> set (heap s)" by (auto simp: ctx_at_def in_set_conv_nth split: if_splits)
  moreover have "kid_for c f (Some d)" using jd by simp
  ultimately show "has_kid s c f" unfolding has_kid_def by blast
qed

lemma has_kid_same:
  assumes "\<And>j. map_option (\<lambda>d. (callback (result d), ctx_file d)) (ctx_at s' j) =
                map_option (\<lambda>d. (callback (result d), ctx_file d)) (ctx_at s j)"
  shows "has_kid s' c f = has_kid s c f"
proof -
  have "(\<exists>d. ctx_at s' j = Some d \<and> callback (result d) = On_rm_rf_complete c \<and> ctx_file d = f) =
        (\<exists>d. ctx_at s j = Some d \<and> callback (result d) = On_rm_rf_complete c \<and> ctx_file d = f)" for j
    using assms [of j] by (cases "ctx_at s' j"; cases "ctx_at s j") auto
  then show ?thesis by (simp add: has_kid_ctx)
qed

lemma has_kid_simps [simp]:
  "has_kid (emit e s) c f = has_kid s c f"
  "has_kid (issue op s) c f = has_kid s c f"
  "has_kid (s\<lparr>pending := ps\<rparr>) c f = has_kid s c f"
  "has_kid (s\<lparr>files_deleted := n\<rparr>) c f = has_kid s c f"
  "has_kid (g_main_loop_quit s) c f = has_kid s c f"
  by (simp_all add: has_kid_def g_main_loop_quit_def)

lemma has_kid_modify [simp]:
  "(\<And>x. result (f x) = result x) \<Longrightarrow> (\<And>x. ctx_file (f x) = ctx_file x) \<Longrightarrow>
   has_kid (modify c f s) q g = has_kid s q g"
proof (rule has_kid_same)
  fix j
  assume r: "\<And>x. result (f x) = result x" and cf: "\<And>x. ctx_file (f x) = ctx_file x"
  show "map_option (\<lambda>d. (callback (result d), ctx_file d)) (ctx_at (modify c f s) j) =
        map_option (\<lambda>d. (callback (result d), ctx_file d)) (ctx_at s j)"
    by (cases "ctx_at s c") (simp_all add: r cf)
qed

lemma has_kid_free:
  assumes d: "ctx_at s c = Some d"
  shows "has_kid s q g =
         (has_kid (g_free c s) q g \<or> callback (result d) = On_rm_rf_complete q \<and> ctx_file d = g)"
proof
  assume "has_kid s q g"
  then obtain j da where j: "ctx_at s j = Some da" "callback (result da) = On_rm_rf_complete q"
      "ctx_file da = g"
    by (auto simp: has_kid_ctx)
  show "has_kid (g_free c s) q g \<or> callback (result d) = On_rm_rf_complete q \<and> ctx_file d = g"
  proof (cases "j = c")
    case True
    with j d show ?thesis by simp
  next
    case False
    with j have "ctx_at (g_free c s) j = Some da" by simp
    with j(2,3) have "has_kid (g_free c s) q g" unfolding has_kid_ctx by blast
    then show ?thesis ..
  qed
next
  assume "has_kid (g_free c s) q g \<or> callback (result d) = On_rm_rf_complete q \<and> ctx_file d = g"
  then show "has_kid s q g"
  proof
    assume "has_kid (g_free c s) q g"
    then obtain j da where j: "ctx_at (g_free c s) j = Some da"
        "callback (result da) = On_rm_rf_complete q" "ctx_file da = g"
      unfolding has_kid_ctx by blast
    from j(1) have "ctx_at s j = Some da" by (simp split: if_splits)
    with j(2,3) show ?thesis unfolding has_kid_ctx by blast
  next
    assume "callback (result d) = On_rm_rf_complete q \<and> ctx_file d = g"
    with d show ?thesis unfolding has_kid_ctx by blast
  qed
qed

lemma has_kid_alloc [simp]:
  "has_kid (rm_rf_async f prio canc cb s) q g = (has_kid s q g \<or> cb = On_rm_rf_complete q \<and> f = g)"
proof
  assume "has_kid (rm_rf_async f prio canc cb s) q g"
  then obtain j da where j: "ctx_at (rm_rf_async f prio canc cb s) j = Some da"
      "callback (result da) = On_rm_rf_complete q" "ctx_file da = g"
    unfolding has_kid_ctx by blast
  show "has_kid s q g \<or> cb = On_rm_rf_complete q \<and> f = g"
  proof (cases "j = length (heap s)")
    case True
    with j(1) have "da = fresh_ctx f prio canc cb" by simp
    with j(2,3) show ?thesis by simp
  next
    case False
    with j(1) have "ctx_at s j = Some da" by simp
    with j(2,3) have "has_kid s q g" unfolding has_kid_ctx by blast
    then show ?thesis ..
  qed
next
  assume "has_kid s q g \<or> cb = On_rm_rf_complete q \<and> f = g"
  then show "has_kid (rm_rf_async f prio canc cb s) q g"
  proof
    assume "has_kid s q g"
    then obtain j da where j: "ctx_at s j = Some da" "callback (result da) = On_rm_rf_complete q"
        "ctx_file da = g"
      unfolding has_kid_ctx by blast
    from j(1) have "j \<noteq> length (heap s)" by (auto dest: ctx_at_lt)
    with j(1) have "ctx_at (rm_rf_async f prio canc cb s) j = Some da" by simp
    with j(2,3) show ?thesis unfolding has_kid_ctx by blast
  next
    assume a: "cb = On_rm_rf_complete q \<and> f = g"
    have "ctx_at (rm_rf_async f prio canc cb s) (length (heap s)) = Some (fresh_ctx f prio canc cb)"
      by simp
    moreover have "callback (result (fresh_ctx f prio canc cb)) = On_rm_rf_complete q"
      "ctx_file (fresh_ctx f prio canc cb) = g"
      using a by simp_all
    ultimately show ?thesis unfolding has_kid_ctx by blast
  qed
qed

lemma outstanding_simps [simp]:
  "outstanding (emit e s) c f = outstanding s c f"
  "outstanding (issue op s) c f = (leaf_for c f op \<or> outstanding s c f)"
  "outstanding (s\<lparr>files_deleted := n\<rparr>) c f = outstanding s c f"
  "outstanding (g_main_loop_quit s) c f = outstanding s c f"
  by (auto simp: outstanding_def)

lemma outstanding_modify [simp]:
  "(\<And>x. result (f x) = result x) \<Longrightarrow> (\<And>x. ctx_file (f x) = ctx_file x) \<Longrightarrow>
   outstanding (modify c f s) q g = outstanding s q g"
  by (simp add: outstanding_def)

lemma own_target_same:
  "map_option ctx_file (ctx_at s' (op_ctx op)) = map_option ctx_file (ctx_at s (op_ctx op)) \<Longrightarrow>
   own_target s' op = own_target s op"
proof -
  assume a: "map_option ctx_file (ctx_at s' (op_ctx op)) = map_option ctx_file (ctx_at s (op_ctx op))"
  show ?thesis
  proof (cases op)
    case (Delete_file f p k cb c)
    then show ?thesis using a
      by (cases cb; cases "ctx_at s' c"; cases "ctx_at s c") auto
  qed simp_all
qed

lemma pend_of_simps [simp]:
  "pend_of (emit e s) c = pend_of s c"
  "pend_of (issue op s) c = pend_of s c"
  "pend_of (s\<lparr>pending := ps\<rparr>) c = pend_of s c"
  "pend_of (s\<lparr>files_deleted := n\<rparr>) c = pend_of s c"
  "pend_of (g_main_loop_quit s) c = pend_of s c"
  by (simp_all add: pend_of_def)

lemma gone_simps [simp]:
  "gone (emit e s) c = gone s c"
  "gone (issue op s) c = gone s c"
  "gone (s\<lparr>pending := ps\<rparr>) c = gone s c"
  "gone (s\<lparr>files_deleted := n\<rparr>) c = gone s c"
  "gone (g_main_loop_quit s) c = gone s c"
  "gone (modify q f s) c = gone s c"
  by (auto simp: gone_def)

lemma gone_free: "ctx_at s c = Some d \<Longrightarrow> gone (g_free c s) q = (q = c \<or> gone s q)"
  by (auto simp: gone_def dest: ctx_at_lt)

lemma trace_simps [simp]:
  "trace (s\<lparr>pending := ps\<rparr>) = trace s"
  "trace (s\<lparr>files_deleted := n\<rparr>) = trace s"
  by simp_all

lemma record_base_cons:
  "record_base fs prio canc (ev # tr) =
     ((\<forall>op. ev = Issue op \<longrightarrow> issued_ok fs prio canc op) \<and>
      (case fetch_params ev of
         None \<Rightarrow> True
       | Some (p, k) \<Rightarrow>
           if opens tr then p = prio \<and> k = canc else p = G_PRIORITY_DEFAULT \<and> k = None) \<and>
      event_ok ev tr \<and> record_base fs prio canc tr)"
  by (auto simp: record_base_def)

lemma ledger_bounds:
  assumes snd: "sound fs k s" and led: "ledger s"
  shows "dir_issues c (trace s) \<le> 1 \<and> count_list (trace s) (Complete c) \<le> 1 \<and>
         count_list (trace s) (Decr c) \<le> count_list (trace s) (Incr c)"
proof -
  from led have a: "count_list (trace s) (Incr c) = count_list (trace s) (Decr c) + pend_of s c"
    and b: "dir_issues c (trace s) = nops (pending s) Dir_delete c + count_list (trace s) (Complete c)"
    and e: "count_list (trace s) (Complete c) = (if gone s c then 1 else 0)"
    by (simp_all add: ledger_def)
  have "nops (pending s) Dir_delete c + count_list (trace s) (Complete c) \<le> 1"
  proof (cases "ctx_at s c")
    case None
    have "\<forall>op\<in>set (pending s). ctx_at s (op_ctx op) \<noteq> None"
      using sound_ops [OF snd] by (simp add: op_ok_def)
    then have "nops (pending s) Dir_delete c = 0" using None by (rule no_ops_of_dead)
    with e show ?thesis by simp
  next
    case (Some d)
    then have "\<not> gone s c" by (simp add: gone_def)
    moreover from sound_ctx [OF snd Some] have "nops (pending s) Dir_delete c \<le> 1"
      by (auto simp: ctx_phase_def listing_phase_def waiting_phase_def deleting_phase_def)
    ultimately show ?thesis using e by simp
  qed
  with a b e show ?thesis by simp
qed

lemma no_leaf_ops:
  "nops ops Leaf_delete c = 0 \<Longrightarrow> op \<in> set ops \<Longrightarrow> \<not> leaf_for c g op"
proof (induction ops)
  case Nil
  then show ?case by simp
next
  case (Cons a ops)
  show ?case
  proof (cases "op = a")
    case True
    from Cons.prems(1) have "\<not> (kind_of a = Leaf_delete \<and> op_ctx a = c)"
      by (auto split: if_splits)
    then show ?thesis unfolding True by (cases "(c, g, a)" rule: leaf_for.cases) auto
  next
    case False
    with Cons show ?thesis by (auto split: if_splits)
  qed
qed

lemma not_outstanding:
  assumes "nops (pending s) Leaf_delete c = 0" and "kids s c = 0"
  shows "\<not> outstanding s c g"
proof -
  have "\<not> has_kid s c g"
    using kids_zero [OF assms(2)] by (auto simp: has_kid_ctx)
  with no_leaf_ops [OF assms(1)] show ?thesis by (auto simp: outstanding_def)
qed

lemma check_shape:
  "ctx_at s c = Some d \<Longrightarrow>
   check_no_children c s =
     (if num_files_pending d = 0 \<and> \<not> have_more_files d
      then issue (Delete_file (ctx_file d) (priority d) (cancellable d) On_end_directory_deleted c) s
      else s)"
  by (simp add: check_no_children_def g_file_delete_async_def)

lemma check_chron:
  assumes d: "ctx_at s1 c = Some d"
    and post: "sound fs k (check_no_children c s1)"
    and ch: "chron prio canc c0 [] s1"
    and rb: "record_base fs prio canc (trace s1)"
  shows "chron prio canc c0 [] (check_no_children c s1) \<and>
         record_base fs prio canc (trace (check_no_children c s1))"
proof (cases "num_files_pending d = 0 \<and> \<not> have_more_files d")
  case False
  with d have "check_no_children c s1 = s1" by (simp add: check_shape)
  with ch rb show ?thesis by simp
next
  case True
  let ?op = "Delete_file (ctx_file d) (priority d) (cancellable d) On_end_directory_deleted c"
  let ?s = "issue ?op s1"
  from d True have eq: "check_no_children c s1 = ?s" by (simp add: check_shape)
  from ch have led: "ledger s1" and fam: "family c0 [] s1" and par: "params prio canc s1"
    by (simp_all add: chron_def)
  have d': "ctx_at ?s c = Some d" using d by simp
  from sound_ctx [OF post [unfolded eq] d']
  have base: "ctx_base ?s c d" and ph: "ctx_phase ?s c d" by simp_all
  from ph have L0: "nops (pending s1) Listing c = 0"
    by (auto simp: ctx_phase_def listing_phase_def waiting_phase_def deleting_phase_def)
  from base True have none: "nops (pending s1) Leaf_delete c = 0" "kids s1 c = 0"
    by (simp_all add: ctx_base_def)
  have "ledger ?s"
    using led by (simp add: ledger_def)
  moreover have "family c0 [] ?s"
    unfolding family_def
  proof (intro conjI allI impI ballI notI)
    fix q dq assume q: "ctx_at ?s q = Some dq"
    then have q1: "ctx_at s1 q = Some dq" by simp
    {
      assume "nops (pending ?s) Listing q = 0"
      then have "nops (pending s1) Listing q = 0" by simp
      with fam q1 show "exhausted q (trace ?s)" by (simp add: family_def)
    }
    fix g assume "g \<in> set (observed q (trace ?s))"
    then have "g \<in> set (observed q (trace s1))" by simp
    with fam q1 have "deleted g (trace s1) \<or> outstanding s1 q g \<or> (q = c0 \<and> g \<in> set [])"
      unfolding family_def by blast
    then show "deleted g (trace ?s) \<or> outstanding ?s q g \<or> (q = c0 \<and> g \<in> set [])"
      by auto
  next
    fix q g assume "g \<in> set (observed q (trace ?s))"
    then have "g \<in> set (observed q (trace s1))" by simp
    with fam have "dispatched g (trace s1) \<or> (q = c0 \<and> g \<in> set [])"
      unfolding family_def by blast
    then show "dispatched g (trace ?s) \<or> (q = c0 \<and> g \<in> set [])" by auto
  next
    fix op assume "op \<in> set (pending ?s)"
    then consider "op \<in> set (pending s1)" | "op = ?op" by auto
    then show "own_target ?s op"
    proof cases
      case 1
      with fam have "own_target s1 op" by (simp add: family_def)
      moreover have "own_target ?s op = own_target s1 op" by (rule own_target_same) simp
      ultimately show ?thesis by simp
    next
      case 2
      with d show ?thesis by simp
    qed
  next
    fix q assume "length (heap ?s) \<le> q"
    with fam show "observed q (trace ?s) = []" by (simp add: family_def)
  next
    fix q assume "length (heap ?s) \<le> q" "exhausted q (trace ?s)"
    with fam show False by (simp add: family_def)
  next
    fix q assume "exhausted q (trace ?s)"
    with fam show "nops (pending ?s) Listing q = 0" by (simp add: family_def)
  qed
  moreover have "params prio canc ?s" using par by (simp add: params_def)
  moreover have "record_base fs prio canc (trace ?s)"
  proof -
    from par d have "issued_ok fs prio canc ?op" by (simp add: params_def)
    moreover have "exhausted c (trace s1)" using fam d L0 by (simp add: family_def)
    moreover have "count_list (trace s1) (Incr c) = count_list (trace s1) (Decr c)"
      using led d True by (simp add: ledger_def pend_of_def)
    moreover have "deleted g (trace s1)" if "g \<in> set (observed c (trace s1))" for g
    proof -
      from fam d that have "deleted g (trace s1) \<or> outstanding s1 c g \<or> (c = c0 \<and> g \<in> set [])"
        unfolding family_def by blast
      with not_outstanding [OF none] show ?thesis by simp
    qed
    ultimately show ?thesis using rb by (simp add: record_base_cons)
  qed
  ultimately show ?thesis by (simp add: eq chron_def)
qed

lemma record_append [simp]:
  "observed c (xs @ ys) = observed c xs @ observed c ys"
  "deleted f (xs @ ys) = (deleted f xs \<or> deleted f ys)"
  "exhausted c (xs @ ys) = (exhausted c xs \<or> exhausted c ys)"
  "dispatched f (xs @ ys) = (dispatched f xs \<or> dispatched f ys)"
  by (auto simp: observed_def deleted_def exhausted_def dispatched_def)

lemma family_keep:
  assumes fam: "family c0 owed s"
    and tr: "trace s' = new @ trace s"
    and ctx: "\<And>q dq. ctx_at s' q = Some dq \<Longrightarrow> ctx_at s q \<noteq> None"
    and lst: "\<And>q. ctx_at s' q \<noteq> None \<Longrightarrow> nops (pending s') Listing q = 0 \<Longrightarrow>
                nops (pending s) Listing q = 0 \<or> exhausted q new"
    and obs: "\<And>q. observed q new = []"
    and out: "\<And>q g. ctx_at s' q \<noteq> None \<Longrightarrow> outstanding s q g \<Longrightarrow>
                outstanding s' q g \<or> deleted g new"
    and own: "\<And>op. op \<in> set (pending s') \<Longrightarrow> own_target s' op"
    and len: "length (heap s') = length (heap s)"
    and quiet: "\<And>q. nops (pending s) Listing q = 0 \<Longrightarrow> nops (pending s') Listing q = 0"
    and shut: "\<And>q. exhausted q new \<Longrightarrow> q < length (heap s) \<and> nops (pending s') Listing q = 0"
  shows "family c0 owed s'"
  unfolding family_def
proof (intro conjI allI impI ballI notI)
  fix q dq assume q: "ctx_at s' q = Some dq"
  from ctx [OF q] obtain d where d: "ctx_at s q = Some d" by auto
  {
    assume "nops (pending s') Listing q = 0"
    with lst [of q] q have "nops (pending s) Listing q = 0 \<or> exhausted q new" by simp
    with fam d show "exhausted q (trace s')" by (auto simp: family_def tr)
  }
  fix g assume "g \<in> set (observed q (trace s'))"
  then have "g \<in> set (observed q (trace s))" by (simp add: tr obs)
  with fam d have "deleted g (trace s) \<or> outstanding s q g \<or> (q = c0 \<and> g \<in> set owed)"
    unfolding family_def by blast
  with out [of q g] q show "deleted g (trace s') \<or> outstanding s' q g \<or> (q = c0 \<and> g \<in> set owed)"
    by (auto simp: tr)
next
  fix q g assume "g \<in> set (observed q (trace s'))"
  then have "g \<in> set (observed q (trace s))" by (simp add: tr obs)
  with fam have "dispatched g (trace s) \<or> (q = c0 \<and> g \<in> set owed)"
    unfolding family_def by blast
  then show "dispatched g (trace s') \<or> (q = c0 \<and> g \<in> set owed)" by (auto simp: tr)
next
  fix op assume "op \<in> set (pending s')"
  then show "own_target s' op" by (rule own)
next
  fix q assume "length (heap s') \<le> q"
  with fam len show "observed q (trace s') = []" by (simp add: family_def tr obs)
next
  fix q assume le: "length (heap s') \<le> q" and ex: "exhausted q (trace s')"
  from le len have le0: "length (heap s) \<le> q" by simp
  with fam have "\<not> exhausted q (trace s)" by (simp add: family_def)
  with ex have "exhausted q new" by (simp add: tr)
  from shut [OF this] le0 show False by simp
next
  fix q assume "exhausted q (trace s')"
  then consider "exhausted q new" | "exhausted q (trace s)" by (auto simp: tr)
  then show "nops (pending s') Listing q = 0"
  proof cases
    case 1
    with shut show ?thesis by simp
  next
    case 2
    with fam have "nops (pending s) Listing q = 0" by (simp add: family_def)
    then show ?thesis by (rule quiet)
  qed
qed

lemma family_own: "family c0 owed s \<Longrightarrow> op \<in> set (pending s) \<Longrightarrow> own_target s op"
  by (simp add: family_def)

lemma outstanding_pending:
  "outstanding (s\<lparr>pending := ps\<rparr>) c f = ((\<exists>op\<in>set ps. leaf_for c f op) \<or> has_kid s c f)"
  by (simp add: outstanding_def)

lemma enumerated_chron:
  assumes snd: "sound fs 0 s"
    and ch: "chron prio canc c0 [] s" and rb: "record_base fs prio canc (trace s)"
    and pend: "pending s = xs @ Enumerate_children f attrs fl p k c # ys"
  shows "chron prio canc c0 []
           (on_enumerate_children (Inr e) c
             (emit (Done (Enumerate_children f attrs fl p k c) None) (s\<lparr>pending := xs @ ys\<rparr>))) \<and>
         record_base fs prio canc
           (trace (on_enumerate_children (Inr e) c
             (emit (Done (Enumerate_children f attrs fl p k c) None) (s\<lparr>pending := xs @ ys\<rparr>))))"
proof -
  let ?op = "Enumerate_children f attrs fl p k c"
  from sound_ops [OF snd, of ?op] pend obtain d where d: "ctx_at s c = Some d"
    by (auto simp: op_ok_def)
  let ?new = "Next_files e 20 (priority d) (cancellable d) c"
  define s1 where "s1 = issue ?new (emit (Done ?op None) (s\<lparr>pending := xs @ ys\<rparr>))"
  have eq: "on_enumerate_children (Inr e) c (emit (Done ?op None) (s\<lparr>pending := xs @ ys\<rparr>)) = s1"
    using d by (simp add: on_enumerate_children_def s1_def g_file_enumerator_next_files_async_def)
  from ch have led: "ledger s" and fam: "family c0 [] s" and par: "params prio canc s"
    by (simp_all add: chron_def)
  have at1: "ctx_at s1 q = ctx_at s q" for q by (simp add: s1_def)
  have tr1: "trace s1 = [Issue ?new, Done ?op None] @ trace s" by (simp add: s1_def)
  have pend1: "pending s1 = xs @ ys @ [?new]" by (simp add: s1_def)
  have "ledger s1"
    using led by (simp add: ledger_def tr1 pend1 pend) (simp add: s1_def)
  moreover have "family c0 [] s1"
    using fam tr1
  proof (rule family_keep)
    show "ctx_at s1 q = Some dq \<Longrightarrow> ctx_at s q \<noteq> None" for q dq by (simp add: at1)
    show "nops (pending s1) Listing q = 0 \<Longrightarrow>
          nops (pending s) Listing q = 0 \<or> exhausted q [Issue ?new, Done ?op None]" for q
      by (simp add: pend1 pend split: if_splits)
    show "observed q [Issue ?new, Done ?op None] = []" for q by simp
    show "outstanding s q g \<Longrightarrow> outstanding s1 q g \<or> deleted g [Issue ?new, Done ?op None]" for q g
      by (auto simp: s1_def outstanding_def pend)
    show "length (heap s1) = length (heap s)"
      by (simp add: s1_def)
    show "nops (pending s) Listing q = 0 \<Longrightarrow> nops (pending s1) Listing q = 0" for q
      by (simp add: pend1 pend split: if_splits)
    show "exhausted q [Issue ?new, Done ?op None] \<Longrightarrow> q < length (heap s) \<and> nops (pending s1) Listing q = 0" for q
      by simp
    show "own_target s1 op" if "op \<in> set (pending s1)" for op
    proof -
      from that consider "op \<in> set (pending s)" | "op = ?new" by (auto simp: pend1 pend)
      then show ?thesis
      proof cases
        case 1
        then have "own_target s op" using fam by (rule family_own [rotated])
        moreover have "own_target s1 op = own_target s op"
          by (rule own_target_same) (simp add: at1)
        ultimately show ?thesis by simp
      next
        case 2
        then show ?thesis by simp
      qed
    qed
  qed
  moreover have "params prio canc s1" using par by (simp add: params_def at1)
  moreover have "record_base fs prio canc (trace s1)"
    using rb par d by (simp add: tr1 record_base_cons params_def)
  ultimately show ?thesis by (simp add: eq chron_def)
qed

lemma pend_of_modify:
  "pend_of (modify c f s) q =
     (if q = c then (case ctx_at s c of None \<Rightarrow> 0 | Some d \<Rightarrow> unat (num_files_pending (f d)))
      else pend_of s q)"
  by (cases "ctx_at s c") (simp_all add: pend_of_def)

lemma live_not_gone: "ctx_at s c = Some d \<Longrightarrow> \<not> gone s c"
  by (simp add: gone_def)

lemma live_not_done:
  "ledger s \<Longrightarrow> ctx_at s c = Some d \<Longrightarrow> count_list (trace s) (Complete c) = 0"
  by (simp add: ledger_def live_not_gone)

lemma listing_not_issued:
  assumes snd: "sound fs k s" and led: "ledger s"
    and pend: "pending s = xs @ op # ys" and op: "kind_of op = Listing" "op_ctx op = c"
  shows "dir_issues c (trace s) = 0"
proof -
  from sound_ops [OF snd, of op] pend op obtain d where d: "ctx_at s c = Some d"
    by (auto simp: op_ok_def)
  from listing_op_phase [OF sound_ctx [OF snd d, THEN conjunct2] pend op]
  have "nops (pending s) Dir_delete c = 0" using pend op by simp
  with led live_not_done [OF led d] show ?thesis by (simp add: ledger_def)
qed

lemma batch_empty_chron:
  assumes snd: "sound fs 0 s"
    and ch: "chron prio canc c0 [] s" and rb: "record_base fs prio canc (trace s)"
    and pend: "pending s = xs @ Next_files e n p k c # ys"
    and empty: "take n (remaining e) = []"
  shows "chron prio canc c0 []
           (on_next_files (e\<lparr>remaining := drop n (remaining e)\<rparr>) (Inr []) c
             (emit (Done (Next_files e n p k c) None) (s\<lparr>pending := xs @ ys\<rparr>))) \<and>
         record_base fs prio canc
           (trace (on_next_files (e\<lparr>remaining := drop n (remaining e)\<rparr>) (Inr []) c
             (emit (Done (Next_files e n p k c) None) (s\<lparr>pending := xs @ ys\<rparr>))))"
proof -
  let ?op = "Next_files e n p k c"
  let ?e = "e\<lparr>remaining := drop n (remaining e)\<rparr>"
  let ?off = "\<lambda>x. x\<lparr>have_more_files := False\<rparr>"
  let ?s0 = "emit (Done ?op None) (s\<lparr>pending := xs @ ys\<rparr>)"
  from sound_ops [OF snd, of ?op] pend obtain d where d: "ctx_at s c = Some d"
    by (auto simp: op_ok_def)
  have cm: "c < length (heap s)" using d by (rule ctx_at_lt)
  from listing_op_phase [OF sound_ctx [OF snd d, THEN conjunct2] pend]
  have L1: "nops (xs @ ys) Listing c = 0" using pend by (simp add: listing_phase_def)
  define s1 where "s1 = g_file_enumerator_close ?e (modify c ?off ?s0)"
  have eq: "on_next_files ?e (Inr []) c ?s0 = check_no_children c s1"
    using d by (simp add: on_next_files_def next_files_head_def s1_def)
  from ch have led: "ledger s" and fam: "family c0 [] s" and par: "params prio canc s"
    by (simp_all add: chron_def)
  have at1: "ctx_at s1 q = (if q = c then Some (?off d) else ctx_at s q)" for q
    using d by (simp add: s1_def g_file_enumerator_close_def)
  have tr1: "trace s1 = [Closed ?e, Done ?op None] @ trace s"
    by (simp add: s1_def g_file_enumerator_close_def)
  have pend1: "pending s1 = xs @ ys" by (simp add: s1_def g_file_enumerator_close_def)
  have "ledger s1"
    using led d
    by (simp add: ledger_def tr1 pend1 pend)
      (simp add: s1_def g_file_enumerator_close_def pend_of_modify pend_of_def)
  moreover have "family c0 [] s1"
    using fam tr1
  proof (rule family_keep)
    show "ctx_at s1 q = Some dq \<Longrightarrow> ctx_at s q \<noteq> None" for q dq
      using d by (simp add: at1 split: if_splits)
    show "nops (pending s1) Listing q = 0 \<Longrightarrow>
          nops (pending s) Listing q = 0 \<or> exhausted q [Closed ?e, Done ?op None]" for q
      using empty by (simp add: pend1 pend del: take_eq_Nil take_eq_Nil2)
    show "observed q [Closed ?e, Done ?op None] = []" for q
      using empty by (simp del: take_eq_Nil take_eq_Nil2)
    show "outstanding s q g \<Longrightarrow> outstanding s1 q g \<or> deleted g [Closed ?e, Done ?op None]" for q g
      by (auto simp: s1_def g_file_enumerator_close_def outstanding_def pend)
    show "length (heap s1) = length (heap s)"
      by (simp add: s1_def g_file_enumerator_close_def)
    show "nops (pending s) Listing q = 0 \<Longrightarrow> nops (pending s1) Listing q = 0" for q
      by (simp add: pend1 pend split: if_splits)
    show "exhausted q [Closed ?e, Done ?op None] \<Longrightarrow> q < length (heap s) \<and> nops (pending s1) Listing q = 0" for q
      using cm L1 by (simp add: pend1 split: if_splits)
    show "own_target s1 op" if "op \<in> set (pending s1)" for op
    proof -
      from that have "op \<in> set (pending s)" by (auto simp: pend1 pend)
      then have "own_target s op" using fam by (rule family_own [rotated])
      moreover have "own_target s1 op = own_target s op"
        by (rule own_target_same) (use d in \<open>simp add: at1\<close>)
      ultimately show ?thesis by simp
    qed
  qed
  moreover have "params prio canc s1" using par d by (simp add: params_def at1)
  ultimately have ch1: "chron prio canc c0 [] s1" by (simp add: chron_def)
  have "dir_issues c (trace s) = 0"
    using snd led pend by (rule listing_not_issued) simp_all
  then have rb1: "record_base fs prio canc (trace s1)"
    using rb by (simp add: tr1 record_base_cons)
  have d1: "ctx_at s1 c = Some (?off d)" by (simp add: at1)
  have post: "sound fs 0 (check_no_children c s1)"
    using batch_empty_sound [OF snd pend empty, of "Done ?op None"] by (simp add: eq)
  from check_chron [OF d1 post ch1 rb1] show ?thesis by (simp add: eq)
qed

lemma file_deleted_chron:
  assumes snd: "sound fs 0 s"
    and ch: "chron prio canc c0 [] s" and rb: "record_base fs prio canc (trace s)"
    and pend: "pending s = xs @ Delete_file f p k On_file_deleted c # ys"
    and bound: "tree_size fs < 2 ^ 32"
  shows "chron prio canc c0 []
           (on_file_deleted c None
             (emit (Done (Delete_file f p k On_file_deleted c) None) (s\<lparr>pending := xs @ ys\<rparr>))) \<and>
         record_base fs prio canc
           (trace (on_file_deleted c None
             (emit (Done (Delete_file f p k On_file_deleted c) None) (s\<lparr>pending := xs @ ys\<rparr>))))"
proof -
  let ?op = "Delete_file f p k On_file_deleted c"
  let ?dec = "\<lambda>x. x\<lparr>num_files_pending := num_files_pending x - 1\<rparr>"
  let ?s0 = "emit (Done ?op None) (s\<lparr>pending := xs @ ys\<rparr>)"
  from sound_ops [OF snd, of ?op] pend obtain d where d: "ctx_at s c = Some d"
    by (auto simp: op_ok_def)
  define s1 where "s1 = emit (Decr c) (modify c ?dec (?s0\<lparr>files_deleted := files_deleted s + 1\<rparr>))"
  have eq: "on_file_deleted c None ?s0 = check_no_children c s1"
    using d by (simp add: on_file_deleted_def s1_def)
  from ch have led: "ledger s" and fam: "family c0 [] s" and par: "params prio canc s"
    by (simp_all add: chron_def)
  have "unat (num_files_pending d) = Suc (nops (xs @ ys) Leaf_delete c + kids s c)"
    using sound_ctx [OF snd d] pend by (simp add: ctx_base_def)
  then have nz: "num_files_pending d \<noteq> 0" by auto
  then have dec: "Suc (unat (num_files_pending d - 1)) = unat (num_files_pending d)"
    by (simp add: unat_pred32 unat_gt_0)
  have at1: "ctx_at s1 q = (if q = c then Some (?dec d) else ctx_at s q)" for q
    using d by (simp add: s1_def)
  have tr1: "trace s1 = [Decr c, Done ?op None] @ trace s" by (simp add: s1_def)
  have pend1: "pending s1 = xs @ ys" by (simp add: s1_def)
  have pd: "pend_of s1 q = (if q = c then unat (num_files_pending d - 1) else pend_of s q)" for q
    using d by (simp add: s1_def pend_of_modify)
  have gn: "gone s1 q = gone s q" for q by (simp add: s1_def)
  have pc: "pend_of s c = unat (num_files_pending d)" using d by (simp add: pend_of_def)
  have "ledger s1"
    unfolding ledger_def
  proof
    fix q
    from led have "count_list (trace s) (Incr q) = count_list (trace s) (Decr q) + pend_of s q"
      "dir_issues q (trace s) = nops (pending s) Dir_delete q + count_list (trace s) (Complete q)"
      "count_list (trace s) (Complete q) = (if gone s q then 1 else 0)"
      by (simp_all add: ledger_def)
    then show "count_list (trace s1) (Incr q) = count_list (trace s1) (Decr q) + pend_of s1 q \<and>
          dir_issues q (trace s1) =
            nops (pending s1) Dir_delete q + count_list (trace s1) (Complete q) \<and>
          count_list (trace s1) (Complete q) = (if gone s1 q then 1 else 0)"
      using dec pc by (cases "q = c") (simp_all add: tr1 pend1 pend pd gn)
  qed
  moreover have "family c0 [] s1"
    using fam tr1
  proof (rule family_keep)
    show "ctx_at s1 q = Some dq \<Longrightarrow> ctx_at s q \<noteq> None" for q dq
      using d by (simp add: at1 split: if_splits)
    show "nops (pending s1) Listing q = 0 \<Longrightarrow>
          nops (pending s) Listing q = 0 \<or> exhausted q [Decr c, Done ?op None]" for q
      by (simp add: pend1 pend)
    show "observed q [Decr c, Done ?op None] = []" for q by simp
    show "outstanding s q g \<Longrightarrow> outstanding s1 q g \<or> deleted g [Decr c, Done ?op None]" for q g
      by (auto simp: s1_def outstanding_def pend)
    show "length (heap s1) = length (heap s)"
      by (simp add: s1_def)
    show "nops (pending s) Listing q = 0 \<Longrightarrow> nops (pending s1) Listing q = 0" for q
      by (simp add: pend1 pend split: if_splits)
    show "exhausted q [Decr c, Done ?op None] \<Longrightarrow> q < length (heap s) \<and> nops (pending s1) Listing q = 0" for q
      by simp
    show "own_target s1 op" if "op \<in> set (pending s1)" for op
    proof -
      from that have "op \<in> set (pending s)" by (auto simp: pend1 pend)
      then have "own_target s op" using fam by (rule family_own [rotated])
      moreover have "own_target s1 op = own_target s op"
        by (rule own_target_same) (use d in \<open>simp add: at1\<close>)
      ultimately show ?thesis by simp
    qed
  qed
  moreover have "params prio canc s1" using par d by (simp add: params_def at1)
  ultimately have ch1: "chron prio canc c0 [] s1" by (simp add: chron_def)
  have rb1: "record_base fs prio canc (trace s1)"
    using rb by (simp add: tr1 record_base_cons)
  have d1: "ctx_at s1 c = Some (?dec d)" by (simp add: at1)
  have post: "sound fs 0 (check_no_children c s1)"
    using file_deleted_sound [OF snd pend bound, of "Done ?op None"] by (simp add: eq)
  from check_chron [OF d1 post ch1 rb1] show ?thesis by (simp add: eq)
qed

lemma kid_counted:
  assumes "ctx_at s c = Some d" "callback (result d) = On_rm_rf_complete p"
  shows "0 < kids s p"
proof -
  from assms(1) have "Some d \<in> set (heap s)"
    by (auto simp: ctx_at_def in_set_conv_nth split: if_splits)
  with assms(2) have "Some d \<in> set (filter (is_kid p) (heap s))" by simp
  then have "0 < length (filter (is_kid p) (heap s))" by (rule length_pos_if_in_set)
  then show ?thesis by (simp add: kids_def)
qed

lemma dir_deleted_chron:
  assumes snd: "sound fs 0 s"
    and ch: "chron prio canc c0 [] s" and rb: "record_base fs prio canc (trace s)"
    and pend: "pending s = xs @ Delete_file f p k On_end_directory_deleted c # ys"
    and bound: "tree_size fs < 2 ^ 32"
  shows "chron prio canc c0 []
           (on_end_directory_deleted c None
             (emit (Done (Delete_file f p k On_end_directory_deleted c) None)
               (s\<lparr>pending := xs @ ys\<rparr>))) \<and>
         record_base fs prio canc
           (trace (on_end_directory_deleted c None
             (emit (Done (Delete_file f p k On_end_directory_deleted c) None)
               (s\<lparr>pending := xs @ ys\<rparr>))))"
proof -
  let ?op = "Delete_file f p k On_end_directory_deleted c"
  let ?dec = "\<lambda>x. x\<lparr>num_files_pending := num_files_pending x - 1\<rparr>"
  let ?s0 = "emit (Done ?op None) (s\<lparr>pending := xs @ ys\<rparr>)"
  let ?res = "on_end_directory_deleted c None ?s0"
  define s0 where "s0 = emit (Complete c) (?s0\<lparr>files_deleted := files_deleted s + 1\<rparr>)"
  from sound_ops [OF snd, of ?op] pend obtain d where d: "ctx_at s c = Some d"
    by (auto simp: op_ok_def)
  from ch have led: "ledger s" and fam: "family c0 [] s" and par: "params prio canc s"
    by (simp_all add: chron_def)
  have bd: "ctx_base s c d" using sound_ctx [OF snd d] by simp
  have del: "nops (xs @ ys) Listing c = 0 \<and> nops (xs @ ys) Dir_delete c = 0 \<and>
             num_files_pending d = 0"
    using sound_ctx [OF snd d, THEN conjunct2] pend
    by (auto simp: ctx_phase_def listing_phase_def waiting_phase_def deleting_phase_def)
  with bd pend have none: "nops (xs @ ys) Leaf_delete c = 0" and nokids: "kids s c = 0"
    by (simp_all add: ctx_base_def)
  have "nops (xs @ ys) kd c = 0" for kd
    using del none by (cases kd) simp_all
  then have noc: "op \<in> set (xs @ ys) \<Longrightarrow> op_ctx op \<noteq> c" for op
    by (rule nops_zero_ctx)
  have err: "res_error (result d) = None" using bd by (simp add: ctx_base_def)
  have snk: "sink_ok s c (callback (result d))" using bd by (simp add: ctx_base_def)
  have st: "exit_status s = None" "\<not> fault s" using sound_status [OF snd] by simp_all
  have at0: "ctx_at s0 q = ctx_at s q" for q by (simp add: s0_def)
  have tgt: "ctx_file d = f"
    using family_own [OF fam, of ?op] pend d by simp
  have pc: "pend_of s c = 0" using d del by (simp add: pend_of_def)
  have ledq: "count_list (trace s) (Incr q) = count_list (trace s) (Decr q) + pend_of s q"
      "dir_issues q (trace s) = nops (pending s) Dir_delete q + count_list (trace s) (Complete q)"
      "count_list (trace s) (Complete q) = (if gone s q then 1 else 0)" for q
    using led by (simp_all add: ledger_def)
  have ng: "\<not> gone s c" using d by (rule live_not_gone)
  have post: "sound fs 0 ?res" using snd pend bound by (rule dir_deleted_sound)
  show ?thesis
  proof (cases "callback (result d)")
    case On_rm_finished
    define s2 where "s2 = g_free c (g_main_loop_quit s0)"
    have eq: "?res = s2"
      using d err On_rm_finished st
      by (simp add: on_end_directory_deleted_def g_simple_async_result_complete_def
          on_rm_finished_def rm_rf_finish_def s2_def s0_def)
    have at2: "ctx_at s2 q = (if q = c then None else ctx_at s q)" for q
      by (simp add: s2_def at0)
    have tr2: "trace s2 = [Complete c, Done ?op None] @ trace s" by (simp add: s2_def s0_def)
    have pend2: "pending s2 = xs @ ys" by (simp add: s2_def s0_def)
    have pd2: "pend_of s2 q = (if q = c then 0 else pend_of s q)" for q
      by (simp add: pend_of_def at2)
    have gn2: "gone s2 q = (q = c \<or> gone s q)" for q
      using gone_free [of "g_main_loop_quit s0" c d q] d
      by (simp add: s2_def at0) (simp add: s0_def)
    have hk: "has_kid s q g \<Longrightarrow> has_kid s2 q g" for q g
      using has_kid_free [of "g_main_loop_quit s0" c d q g] d On_rm_finished
      by (simp add: s2_def at0) (simp add: s0_def)
    have "ledger s2"
      unfolding ledger_def
    proof
      fix q
      show "count_list (trace s2) (Incr q) = count_list (trace s2) (Decr q) + pend_of s2 q \<and>
          dir_issues q (trace s2) =
            nops (pending s2) Dir_delete q + count_list (trace s2) (Complete q) \<and>
          count_list (trace s2) (Complete q) = (if gone s2 q then 1 else 0)"
        using ledq [of q] pc ng del
        by (cases "q = c") (simp_all add: tr2 pend2 pend pd2 gn2)
    qed
    moreover have "family c0 [] s2"
      using fam tr2
    proof (rule family_keep)
      show "ctx_at s2 q = Some dq \<Longrightarrow> ctx_at s q \<noteq> None" for q dq
        by (simp add: at2 split: if_splits)
      show "nops (pending s2) Listing q = 0 \<Longrightarrow>
            nops (pending s) Listing q = 0 \<or> exhausted q [Complete c, Done ?op None]" for q
        by (simp add: pend2 pend)
      show "observed q [Complete c, Done ?op None] = []" for q by simp
      show "outstanding s q g \<Longrightarrow> outstanding s2 q g \<or> deleted g [Complete c, Done ?op None]" for q g
        using hk [of q g] by (auto simp: outstanding_def pend pend2)
      show "length (heap s2) = length (heap s)"
        by (simp add: s2_def s0_def)
      show "nops (pending s) Listing q = 0 \<Longrightarrow> nops (pending s2) Listing q = 0" for q
        by (simp add: pend2 pend split: if_splits)
      show "exhausted q [Complete c, Done ?op None] \<Longrightarrow> q < length (heap s) \<and> nops (pending s2) Listing q = 0" for q
        by simp
      show "own_target s2 op" if "op \<in> set (pending s2)" for op
      proof -
        from that have mem: "op \<in> set (xs @ ys)" by (simp add: pend2)
        then have "op \<in> set (pending s)" by (auto simp: pend)
        then have "own_target s op" using fam by (rule family_own [rotated])
        moreover have "own_target s2 op = own_target s op"
          by (rule own_target_same) (use noc [OF mem] in \<open>simp add: at2\<close>)
        ultimately show ?thesis by simp
      qed
    qed
    moreover have "params prio canc s2" using par by (simp add: params_def at2)
    moreover have "record_base fs prio canc (trace s2)"
      using rb by (simp add: tr2 record_base_cons)
    ultimately show ?thesis by (simp add: eq chron_def)
  next
    case (On_rm_rf_complete par)
    with snk have pc': "par < c" and "ctx_at s par \<noteq> None" by simp_all
    then obtain dp where dp: "ctx_at s par = Some dp" by auto
    from pc' have ne: "c \<noteq> par" "par \<noteq> c" by simp_all
    define s1 where "s1 = emit (Decr par) (modify par ?dec s0)"
    define s2 where "s2 = g_free c s1"
    have live1: "ctx_at s1 par \<noteq> None" using dp by (simp add: s1_def at0)
    have st1: "exit_status (check_no_children par s1) = None \<and> \<not> fault (check_no_children par s1)"
      using check_keeps_status [OF live1] st by (simp add: s1_def s0_def)
    have "?res = g_free c (check_no_children par s1)"
      using d dp err On_rm_rf_complete st1
      by (simp add: on_end_directory_deleted_def g_simple_async_result_complete_def
          on_rm_rf_complete_def rm_rf_finish_def s1_def [symmetric] s0_def [symmetric] at0 Let_def)
    then have eq: "?res = check_no_children par s2"
      using ne by (simp add: free_check_commute s2_def)
    have at2: "ctx_at s2 q = (if q = c then None else if q = par then Some (?dec dp) else ctx_at s q)" for q
      using dp by (simp add: s2_def s1_def at0)
    have tr2: "trace s2 = [Decr par, Complete c, Done ?op None] @ trace s"
      by (simp add: s2_def s1_def s0_def)
    have pend2: "pending s2 = xs @ ys" by (simp add: s2_def s1_def s0_def)
    have d1: "ctx_at s1 c = Some d" using d ne by (simp add: s1_def at0)
    have "0 < kids s par" using d On_rm_rf_complete by (rule kid_counted)
    with sound_ctx [OF snd dp] have "num_files_pending dp \<noteq> 0"
      by (auto simp: ctx_base_def)
    then have decp: "Suc (unat (num_files_pending dp - 1)) = unat (num_files_pending dp)"
      by (simp add: unat_pred32 unat_gt_0)
    have pp: "pend_of s par = unat (num_files_pending dp)" using dp by (simp add: pend_of_def)
    have pd2: "pend_of s2 q = (if q = c then 0 else if q = par then unat (num_files_pending dp - 1)
                               else pend_of s q)" for q
      by (simp add: pend_of_def at2)
    have gn2: "gone s2 q = (q = c \<or> gone s q)" for q
      using gone_free [OF d1, of q] by (simp add: s2_def) (simp add: s1_def s0_def)
    have hk1: "has_kid s1 q g = has_kid s q g" for q g by (simp add: s1_def s0_def)
    have hk: "has_kid s q g \<Longrightarrow> has_kid s2 q g \<or> g = f" for q g
      using has_kid_free [OF d1, of q g] tgt by (auto simp: s2_def hk1)
    have "ledger s2"
      unfolding ledger_def
    proof
      fix q
      show "count_list (trace s2) (Incr q) = count_list (trace s2) (Decr q) + pend_of s2 q \<and>
          dir_issues q (trace s2) =
            nops (pending s2) Dir_delete q + count_list (trace s2) (Complete q) \<and>
          count_list (trace s2) (Complete q) = (if gone s2 q then 1 else 0)"
        using ledq [of q] pc ng del decp pp ne
        by (cases "q = c"; cases "q = par") (simp_all add: tr2 pend2 pend pd2 gn2)
    qed
    moreover have "family c0 [] s2"
      using fam tr2
    proof (rule family_keep)
      show "ctx_at s2 q = Some dq \<Longrightarrow> ctx_at s q \<noteq> None" for q dq
        using dp by (simp add: at2 split: if_splits)
      show "nops (pending s2) Listing q = 0 \<Longrightarrow>
            nops (pending s) Listing q = 0 \<or> exhausted q [Decr par, Complete c, Done ?op None]" for q
        by (simp add: pend2 pend)
      show "observed q [Decr par, Complete c, Done ?op None] = []" for q by simp
      show "outstanding s q g \<Longrightarrow>
            outstanding s2 q g \<or> deleted g [Decr par, Complete c, Done ?op None]" for q g
        using hk [of q g] by (auto simp: outstanding_def pend pend2)
      show "length (heap s2) = length (heap s)"
        by (simp add: s2_def s1_def s0_def)
      show "nops (pending s) Listing q = 0 \<Longrightarrow> nops (pending s2) Listing q = 0" for q
        by (simp add: pend2 pend split: if_splits)
      show "exhausted q [Decr par, Complete c, Done ?op None] \<Longrightarrow> q < length (heap s) \<and> nops (pending s2) Listing q = 0" for q
        by simp
      show "own_target s2 op" if "op \<in> set (pending s2)" for op
      proof -
        from that have mem: "op \<in> set (xs @ ys)" by (simp add: pend2)
        then have "op \<in> set (pending s)" by (auto simp: pend)
        then have "own_target s op" using fam by (rule family_own [rotated])
        moreover have "own_target s2 op = own_target s op"
          by (rule own_target_same) (use noc [OF mem] dp in \<open>simp add: at2\<close>)
        ultimately show ?thesis by simp
      qed
    qed
    moreover have "params prio canc s2" using par dp by (simp add: params_def at2)
    ultimately have ch2: "chron prio canc c0 [] s2" by (simp add: chron_def)
    have rb2: "record_base fs prio canc (trace s2)"
      using rb by (simp add: tr2 record_base_cons)
    have dpar: "ctx_at s2 par = Some (?dec dp)" using ne by (simp add: at2)
    from check_chron [OF dpar post [unfolded eq] ch2 rb2] show ?thesis by (simp add: eq)
  qed
qed

lemma dispatch_no_overflow:
  assumes snd: "sound fs (size_at fs (rel parent @ [info_name i]) + k) s"
    and d: "ctx_at s c = Some d"
    and ent: "entry_ok fs parent i"
    and bound: "tree_size fs < 2 ^ 32"
  shows "unat (num_files_pending d + 1) = unat (num_files_pending d) + 1"
proof -
  from ent obtain nd where look: "lookup fs (rel parent @ [info_name i]) = Some nd"
    by (auto simp: entry_ok_def split: option.splits)
  then have "size_at fs (rel parent @ [info_name i]) = tree_size nd" by (simp add: size_at_def)
  with sound_count [OF snd] have "unat (files_deleted s) + todo fs s + tree_size nd + k = tree_size fs"
    by simp
  moreover have "unat (num_files_pending d) \<le> todo fs s"
    using sound_ctx [OF snd d, THEN conjunct1] by (rule pending_le_todo)
  ultimately have "unat (num_files_pending d) + 1 < 2 ^ 32"
    using bound tree_size_pos [of nd] by linarith
  then show ?thesis by (rule unat_succ32)
qed

lemma family_nil: "family c0 [] s \<Longrightarrow> family c1 [] s"
  by (simp add: family_def)

lemma dispatch_chron:
  assumes snd: "sound fs (size_at fs (rel parent @ [info_name i]) + k) s"
    and d: "ctx_at s c = Some d"
    and ent: "entry_ok fs parent i"
    and bound: "tree_size fs < 2 ^ 32"
    and ch: "chron prio canc c (g_file_get_child parent (info_name i) # owed) s"
    and rb: "record_base fs prio canc (trace s)"
  shows "chron prio canc c owed (dispatch_entry c parent s i) \<and>
         record_base fs prio canc (trace (dispatch_entry c parent s i))"
proof -
  let ?inc = "\<lambda>x. x\<lparr>num_files_pending := num_files_pending x + 1\<rparr>"
  let ?child = "g_file_get_child parent (info_name i)"
  define s1 where "s1 = emit (Incr c) (modify c ?inc s)"
  from ch have led: "ledger s" and fam: "family c (?child # owed) s" and par: "params prio canc s"
    by (simp_all add: chron_def)
  from ent obtain nd where look: "lookup fs (rel parent @ [info_name i]) = Some nd"
    and qi: "query_info G_FILE_QUERY_INFO_NOFOLLOW_SYMLINKS nd = i"
    by (auto simp: entry_ok_def split: option.splits)
  have inc: "unat (num_files_pending d + 1) = unat (num_files_pending d) + 1"
    using snd d ent bound by (rule dispatch_no_overflow)
  have pc: "pend_of s c = unat (num_files_pending d)" using d by (simp add: pend_of_def)
  have cm: "c < length (heap s)" using d by (rule ctx_at_lt)
  have pri: "priority d = prio" "cancellable d = canc" using par d by (simp_all add: params_def)
  have ledq: "count_list (trace s) (Incr q) = count_list (trace s) (Decr q) + pend_of s q"
      "dir_issues q (trace s) = nops (pending s) Dir_delete q + count_list (trace s) (Complete q)"
      "count_list (trace s) (Complete q) = (if gone s q then 1 else 0)" for q
    using led by (simp_all add: ledger_def)
  have famA: "ctx_at s q = Some dq \<Longrightarrow> nops (pending s) Listing q = 0 \<Longrightarrow> exhausted q (trace s)" for q dq
    using fam by (simp add: family_def)
  have famB: "ctx_at s q = Some dq \<Longrightarrow> g \<in> set (observed q (trace s)) \<Longrightarrow>
      deleted g (trace s) \<or> outstanding s q g \<or> (q = c \<and> (g = ?child \<or> g \<in> set owed))" for q dq g
    using fam unfolding family_def by auto
  have famC: "g \<in> set (observed q (trace s)) \<Longrightarrow>
      dispatched g (trace s) \<or> (q = c \<and> (g = ?child \<or> g \<in> set owed))" for q g
    using fam unfolding family_def by auto
  have famE: "length (heap s) \<le> q \<Longrightarrow> observed q (trace s) = []"
      "length (heap s) \<le> q \<Longrightarrow> \<not> exhausted q (trace s)" for q
    using fam by (simp_all add: family_def)
  have famF: "exhausted q (trace s) \<Longrightarrow> nops (pending s) Listing q = 0" for q
    using fam by (simp add: family_def)
  show ?thesis
  proof (cases "info_type i = G_FILE_TYPE_DIRECTORY")
    case True
    let ?m = "length (heap s)"
    let ?new = "first_listing ?child (priority d) (cancellable d) ?m"
    define s2 where "s2 = rm_rf_async ?child (priority d) (cancellable d) (On_rm_rf_complete c) s1"
    have eq: "dispatch_entry c parent s i = s2"
      using d True
      by (simp add: dispatch_entry_def s1_def s2_def g_file_info_get_file_type_def
          g_file_info_get_name_def Let_def)
    have len1: "length (heap s1) = ?m" by (simp add: s1_def)
    have at2: "ctx_at s2 q = (if q = ?m then Some (fresh_ctx ?child (priority d) (cancellable d) (On_rm_rf_complete c))
                   else if q = c then Some (?inc d) else ctx_at s q)" for q
      using d by (simp add: s2_def len1) (simp add: s1_def)
    have pend2: "pending s2 = pending s @ [?new]" by (simp add: s2_def len1) (simp add: s1_def)
    have tr2: "trace s2 = [Issue ?new, Incr c] @ trace s" by (simp add: s2_def len1) (simp add: s1_def)
    have pd2: "pend_of s2 q = (if q = c then unat (num_files_pending d) + 1 else pend_of s q)" for q
      using cm inc by (auto simp: pend_of_def at2)
    have len2: "length (heap s2) = Suc ?m" by (simp add: s2_def len1)
    have gn2: "gone s2 q = gone s q" for q
      using cm d by (auto simp: gone_def at2 len2)
    have out2: "outstanding s q g \<Longrightarrow> outstanding s2 q g" for q g
      by (auto simp: outstanding_def pend2 s2_def s1_def first_listing_def)
    have outc: "outstanding s2 c ?child"
      by (simp add: outstanding_def s2_def)
    from True qi have "is_dir nd" by (simp add: directory_entry)
    with look have isd: "is_dir_at fs (rel ?child)" by simp
    have "ledger s2"
      unfolding ledger_def
    proof
      fix q
      show "count_list (trace s2) (Incr q) = count_list (trace s2) (Decr q) + pend_of s2 q \<and>
          dir_issues q (trace s2) =
            nops (pending s2) Dir_delete q + count_list (trace s2) (Complete q) \<and>
          count_list (trace s2) (Complete q) = (if gone s2 q then 1 else 0)"
        using ledq [of q] pc
        by (cases "q = c") (simp_all add: tr2 pend2 pd2 gn2 first_listing_def)
    qed
    moreover have "family c owed s2"
      unfolding family_def
    proof (intro conjI allI impI ballI notI)
      fix q dq assume q: "ctx_at s2 q = Some dq"
      {
        assume L: "nops (pending s2) Listing q = 0"
        then have qm: "q \<noteq> ?m" by (auto simp: pend2)
        with q obtain dq' where "ctx_at s q = Some dq'" using d by (auto simp: at2 split: if_splits)
        moreover from L have "nops (pending s) Listing q = 0" by (simp add: pend2)
        ultimately have "exhausted q (trace s)" by (rule famA)
        then show "exhausted q (trace s2)" by (simp add: tr2)
      }
      fix g assume g: "g \<in> set (observed q (trace s2))"
      then have g0: "g \<in> set (observed q (trace s))" by (simp add: tr2 first_listing_def)
      with famE [of q] have qm: "q \<noteq> ?m" by auto
      with q obtain dq' where "ctx_at s q = Some dq'" using d by (auto simp: at2 split: if_splits)
      from famB [OF this g0] out2 [of q g] outc
      show "deleted g (trace s2) \<or> outstanding s2 q g \<or> (q = c \<and> g \<in> set owed)"
        by (auto simp: tr2)
    next
      fix q g assume "g \<in> set (observed q (trace s2))"
      then have "g \<in> set (observed q (trace s))" by (simp add: tr2 first_listing_def)
      from famC [OF this] show "dispatched g (trace s2) \<or> (q = c \<and> g \<in> set owed)"
        by (auto simp: tr2 first_listing_def)
    next
      fix op assume "op \<in> set (pending s2)"
      then consider "op \<in> set (pending s)" | "op = ?new" by (auto simp: pend2)
      then show "own_target s2 op"
      proof cases
        case 1
        then have "own_target s op" using fam by (rule family_own [rotated])
        moreover from 1 sound_ops [OF snd] have "ctx_at s (op_ctx op) \<noteq> None"
          by (simp add: op_ok_def)
        then have "op_ctx op \<noteq> ?m" by (auto dest: ctx_at_lt)
        then have "own_target s2 op = own_target s op"
          by (intro own_target_same) (use d in \<open>simp add: at2\<close>)
        ultimately show ?thesis by simp
      next
        case 2
        then show ?thesis by (simp add: first_listing_def)
      qed
    next
      fix q assume "length (heap s2) \<le> q"
      then have "length (heap s) \<le> q" by (simp add: len2)
      then show "observed q (trace s2) = []" using famE by (simp add: tr2 first_listing_def)
    next
      fix q assume "length (heap s2) \<le> q" "exhausted q (trace s2)"
      then have "length (heap s) \<le> q" "exhausted q (trace s)"
        by (simp_all add: len2 tr2 first_listing_def)
      with famE(2) show False by simp
    next
      fix q assume "exhausted q (trace s2)"
      then have ex: "exhausted q (trace s)" by (simp add: tr2 first_listing_def)
      with famE(2) [of q] have "q \<noteq> ?m" by auto
      with famF [OF ex] show "nops (pending s2) Listing q = 0"
        by (simp add: pend2 first_listing_def)
    qed
    moreover have "params prio canc s2"
      using par pri by (simp add: params_def at2)
    moreover have "record_base fs prio canc (trace s2)"
      using rb pri isd by (simp add: tr2 record_base_cons first_listing_def)
    ultimately show ?thesis by (simp add: eq chron_def)
  next
    case False
    let ?new = "Delete_file ?child (priority d) None On_file_deleted c"
    define s2 where "s2 = issue ?new s1"
    have eq: "dispatch_entry c parent s i = s2"
      using d False
      by (simp add: dispatch_entry_def s1_def s2_def g_file_info_get_file_type_def
          g_file_info_get_name_def g_file_delete_async_def Let_def)
    have at2: "ctx_at s2 q = (if q = c then Some (?inc d) else ctx_at s q)" for q
      using d by (simp add: s2_def s1_def)
    have pend2: "pending s2 = pending s @ [?new]" by (simp add: s2_def s1_def)
    have tr2: "trace s2 = [Issue ?new, Incr c] @ trace s" by (simp add: s2_def s1_def)
    have pd2: "pend_of s2 q = (if q = c then unat (num_files_pending d) + 1 else pend_of s q)" for q
      using inc by (auto simp: pend_of_def at2)
    have gn2: "gone s2 q = gone s q" for q by (simp add: s2_def s1_def)
    have out2: "outstanding s q g \<Longrightarrow> outstanding s2 q g" for q g
      by (auto simp: s2_def s1_def)
    have outc: "outstanding s2 c ?child" by (simp add: s2_def)
    have "ledger s2"
      unfolding ledger_def
    proof
      fix q
      show "count_list (trace s2) (Incr q) = count_list (trace s2) (Decr q) + pend_of s2 q \<and>
          dir_issues q (trace s2) =
            nops (pending s2) Dir_delete q + count_list (trace s2) (Complete q) \<and>
          count_list (trace s2) (Complete q) = (if gone s2 q then 1 else 0)"
        using ledq [of q] pc
        by (cases "q = c") (simp_all add: tr2 pend2 pd2 gn2)
    qed
    moreover have "family c owed s2"
      unfolding family_def
    proof (intro conjI allI impI ballI notI)
      fix q dq assume q: "ctx_at s2 q = Some dq"
      then obtain dq' where q0: "ctx_at s q = Some dq'" using d by (auto simp: at2 split: if_splits)
      {
        assume "nops (pending s2) Listing q = 0"
        then have "nops (pending s) Listing q = 0" by (simp add: pend2)
        with q0 have "exhausted q (trace s)" by (rule famA)
        then show "exhausted q (trace s2)" by (simp add: tr2)
      }
      fix g assume "g \<in> set (observed q (trace s2))"
      then have g0: "g \<in> set (observed q (trace s))" by (simp add: tr2)
      from famB [OF q0 g0] out2 [of q g] outc
      show "deleted g (trace s2) \<or> outstanding s2 q g \<or> (q = c \<and> g \<in> set owed)"
        by (auto simp: tr2)
    next
      fix q g assume "g \<in> set (observed q (trace s2))"
      then have "g \<in> set (observed q (trace s))" by (simp add: tr2)
      from famC [OF this] show "dispatched g (trace s2) \<or> (q = c \<and> g \<in> set owed)"
        by (auto simp: tr2)
    next
      fix op assume "op \<in> set (pending s2)"
      then consider "op \<in> set (pending s)" | "op = ?new" by (auto simp: pend2)
      then show "own_target s2 op"
      proof cases
        case 1
        then have "own_target s op" using fam by (rule family_own [rotated])
        moreover have "own_target s2 op = own_target s op"
          by (intro own_target_same) (use d in \<open>simp add: at2\<close>)
        ultimately show ?thesis by simp
      next
        case 2
        then show ?thesis by simp
      qed
    next
      fix q assume "length (heap s2) \<le> q"
      then have "length (heap s) \<le> q" by (simp add: s2_def s1_def)
      then show "observed q (trace s2) = []" using famE by (simp add: tr2)
    next
      fix q assume "length (heap s2) \<le> q" "exhausted q (trace s2)"
      then have "length (heap s) \<le> q" "exhausted q (trace s)"
        by (simp_all add: s2_def s1_def tr2)
      with famE(2) show False by simp
    next
      fix q assume "exhausted q (trace s2)"
      then have ex: "exhausted q (trace s)" by (simp add: tr2)
      from famF [OF ex] show "nops (pending s2) Listing q = 0"
        by (simp add: pend2)
    qed
    moreover have "params prio canc s2"
      using par d by (simp add: params_def at2)
    moreover have "record_base fs prio canc (trace s2)"
      using rb pri by (simp add: tr2 record_base_cons)
    ultimately show ?thesis by (simp add: eq chron_def)
  qed
qed

lemma dispatch_loop_chron:
  assumes bound: "tree_size fs < 2 ^ 32"
  shows "sound fs (sum_list (map (\<lambda>i. size_at fs (rel parent @ [info_name i])) files) + k) s \<Longrightarrow>
         ctx_at s c = Some d \<Longrightarrow> have_more_files d \<Longrightarrow>
         \<forall>i\<in>set files. entry_ok fs parent i \<Longrightarrow>
         chron prio canc c (map (\<lambda>i. g_file_get_child parent (info_name i)) files @ owed) s \<Longrightarrow>
         record_base fs prio canc (trace s) \<Longrightarrow>
         chron prio canc c owed (foldl (dispatch_entry c parent) s files) \<and>
         record_base fs prio canc (trace (foldl (dispatch_entry c parent) s files))"
proof (induction files arbitrary: s d)
  case Nil
  then show ?case by simp
next
  case (Cons i files)
  let ?rest = "sum_list (map (\<lambda>i. size_at fs (rel parent @ [info_name i])) files)"
  from Cons.prems(4) have ent: "entry_ok fs parent i" by simp
  from Cons.prems(1)
  have snd1: "sound fs (size_at fs (rel parent @ [info_name i]) + (?rest + k)) s"
    by (simp add: add.assoc)
  from dispatch_sound [OF snd1 Cons.prems(2,3) ent bound]
  obtain d' where a: "sound fs (?rest + k) (dispatch_entry c parent s i)"
    and b: "ctx_at (dispatch_entry c parent s i) c = Some d'" "have_more_files d'"
    by auto
  from Cons.prems(5)
  have "chron prio canc c (g_file_get_child parent (info_name i) #
          (map (\<lambda>i. g_file_get_child parent (info_name i)) files @ owed)) s"
    by simp
  from dispatch_chron [OF snd1 Cons.prems(2) ent bound this Cons.prems(6)]
  have c: "chron prio canc c (map (\<lambda>i. g_file_get_child parent (info_name i)) files @ owed)
             (dispatch_entry c parent s i)"
    and r: "record_base fs prio canc (trace (dispatch_entry c parent s i))"
    by simp_all
  from Cons.prems(4) have "\<forall>i\<in>set files. entry_ok fs parent i" by simp
  from Cons.IH [OF a b this c r] show ?case by simp
qed

lemma batch_chron:
  assumes snd: "sound fs 0 s"
    and ch: "chron prio canc c0 [] s" and rb: "record_base fs prio canc (trace s)"
    and pend: "pending s = xs @ Next_files e n p k c # ys"
    and nonempty: "take n (remaining e) \<noteq> []"
    and bound: "tree_size fs < 2 ^ 32"
  shows "chron prio canc c0 []
           (on_next_files (e\<lparr>remaining := drop n (remaining e)\<rparr>) (Inr (take n (remaining e))) c
             (emit (Done (Next_files e n p k c) None) (s\<lparr>pending := xs @ ys\<rparr>))) \<and>
         record_base fs prio canc
           (trace (on_next_files (e\<lparr>remaining := drop n (remaining e)\<rparr>) (Inr (take n (remaining e))) c
             (emit (Done (Next_files e n p k c) None) (s\<lparr>pending := xs @ ys\<rparr>))))"
proof -
  let ?op = "Next_files e n p k c"
  let ?e = "e\<lparr>remaining := drop n (remaining e)\<rparr>"
  let ?files = "take n (remaining e)"
  let ?on = "\<lambda>x. x\<lparr>have_more_files := True\<rparr>"
  let ?new = "Next_files ?e 20 G_PRIORITY_DEFAULT None c"
  let ?s0 = "emit (Done ?op None) (s\<lparr>pending := xs @ ys\<rparr>)"
  let ?owed = "map (\<lambda>i. g_file_get_child (container e) (info_name i)) ?files"
  from sound_ops [OF snd, of ?op] pend obtain d where d: "ctx_at s c = Some d"
    by (auto simp: op_ok_def)
  then have d0: "ctx_at ?s0 c = Some d" by simp
  define s1 where "s1 = issue ?new (modify c ?on ?s0)"
  have eq: "on_next_files ?e (Inr ?files) c ?s0 = foldl (dispatch_entry c (container e)) s1 ?files"
    using batch_shape [OF d0 nonempty, of ?e] by (simp add: s1_def)
  from ch have led: "ledger s" and fam: "family c0 [] s" and par: "params prio canc s"
    by (simp_all add: chron_def)
  have cm: "c < length (heap s)" using d by (rule ctx_at_lt)
  have at1: "ctx_at s1 q = (if q = c then Some (?on d) else ctx_at s q)" for q
    using d by (simp add: s1_def)
  have tr1: "trace s1 = [Issue ?new, Done ?op None] @ trace s" by (simp add: s1_def)
  have pend1: "pending s1 = xs @ ys @ [?new]" by (simp add: s1_def)
  have famA: "ctx_at s q = Some dq \<Longrightarrow> nops (pending s) Listing q = 0 \<Longrightarrow> exhausted q (trace s)" for q dq
    using fam by (simp add: family_def)
  have famB: "ctx_at s q = Some dq \<Longrightarrow> g \<in> set (observed q (trace s)) \<Longrightarrow>
      deleted g (trace s) \<or> outstanding s q g" for q dq g
    using fam unfolding family_def by auto
  have famC: "g \<in> set (observed q (trace s)) \<Longrightarrow> dispatched g (trace s)" for q g
    using fam unfolding family_def by auto
  have famE: "length (heap s) \<le> q \<Longrightarrow> observed q (trace s) = []"
      "length (heap s) \<le> q \<Longrightarrow> \<not> exhausted q (trace s)" for q
    using fam by (simp_all add: family_def)
  have famF: "exhausted q (trace s) \<Longrightarrow> nops (pending s) Listing q = 0" for q
    using fam by (simp add: family_def)
  have out1: "outstanding s q g \<Longrightarrow> outstanding s1 q g" for q g
    by (auto simp: s1_def outstanding_def pend)
  have "ledger s1"
    using led d
    by (simp add: ledger_def tr1 pend1 pend)
      (simp add: s1_def pend_of_modify pend_of_def)
  moreover have "family c ?owed s1"
    unfolding family_def
  proof (intro conjI allI impI ballI notI)
    fix q dq assume q: "ctx_at s1 q = Some dq"
    then obtain dq' where q0: "ctx_at s q = Some dq'" using d by (auto simp: at1 split: if_splits)
    {
      assume L: "nops (pending s1) Listing q = 0"
      then have "q \<noteq> c" by (auto simp: pend1)
      with L have "nops (pending s) Listing q = 0" by (simp add: pend1 pend)
      with q0 have "exhausted q (trace s)" by (rule famA)
      then show "exhausted q (trace s1)" by (simp add: tr1)
    }
    fix g assume "g \<in> set (observed q (trace s1))"
    then consider "q = c" "g \<in> set ?owed" | "g \<in> set (observed q (trace s))"
      by (auto simp: tr1 split: if_splits)
    then show "deleted g (trace s1) \<or> outstanding s1 q g \<or> (q = c \<and> g \<in> set ?owed)"
    proof cases
      case 1
      then show ?thesis by simp
    next
      case 2
      from famB [OF q0 2] out1 [of q g] show ?thesis by (auto simp: tr1)
    qed
  next
    fix q g assume "g \<in> set (observed q (trace s1))"
    then consider "q = c" "g \<in> set ?owed" | "g \<in> set (observed q (trace s))"
      by (auto simp: tr1 split: if_splits)
    then show "dispatched g (trace s1) \<or> (q = c \<and> g \<in> set ?owed)"
    proof cases
      case 1
      then show ?thesis by simp
    next
      case 2
      from famC [OF 2] show ?thesis by (simp add: tr1)
    qed
  next
    fix op assume "op \<in> set (pending s1)"
    then consider "op \<in> set (pending s)" | "op = ?new" by (auto simp: pend1 pend)
    then show "own_target s1 op"
    proof cases
      case 1
      then have "own_target s op" using fam by (rule family_own [rotated])
      moreover have "own_target s1 op = own_target s op"
        by (rule own_target_same) (use d in \<open>simp add: at1\<close>)
      ultimately show ?thesis by simp
    next
      case 2
      then show ?thesis by simp
    qed
  next
    fix q assume "length (heap s1) \<le> q"
    then have le: "length (heap s) \<le> q" by (simp add: s1_def)
    with cm have "q \<noteq> c" by simp
    with famE(1) [OF le] show "observed q (trace s1) = []" by (simp add: tr1)
  next
    fix q assume "length (heap s1) \<le> q" "exhausted q (trace s1)"
    then have "length (heap s) \<le> q" "exhausted q (trace s)"
      using nonempty by (simp_all add: s1_def tr1 del: take_eq_Nil take_eq_Nil2)
    with famE(2) show False by simp
  next
    fix q assume "exhausted q (trace s1)"
    then have ex: "exhausted q (trace s)"
      using nonempty by (simp add: tr1 del: take_eq_Nil take_eq_Nil2)
    from famF [OF ex] have z: "nops (pending s) Listing q = 0" .
    then have "q \<noteq> c" by (auto simp: pend)
    with z show "nops (pending s1) Listing q = 0" by (simp add: pend1 pend)
  qed
  moreover have "params prio canc s1" using par d by (simp add: params_def at1)
  ultimately have ch1: "chron prio canc c (?owed @ []) s1" by (simp add: chron_def)
  have "dir_issues c (trace s) = 0"
    using snd led pend by (rule listing_not_issued) simp_all
  then have rb1: "record_base fs prio canc (trace s1)"
    using rb nonempty by (simp add: tr1 record_base_cons del: take_eq_Nil take_eq_Nil2)
  have c1: "ctx_at s1 c = Some (?on d)" by (simp add: at1)
  have snd1: "sound fs
      (sum_list (map (\<lambda>i. size_at fs (rel (container e) @ [info_name i])) ?files) + 0) s1"
    unfolding s1_def by (rule batch_head_sound(1) [OF snd pend d])
  have ents: "\<forall>i\<in>set ?files. entry_ok fs (container e) i"
    by (rule batch_head_sound(2) [OF snd pend d])
  from dispatch_loop_chron [OF bound snd1 c1 _ ents ch1 rb1]
  have "chron prio canc c [] (foldl (dispatch_entry c (container e)) s1 ?files) \<and>
        record_base fs prio canc (trace (foldl (dispatch_entry c (container e)) s1 ?files))"
    by simp
  then show ?thesis
    by (simp add: eq chron_def family_nil [of c _ c0])
qed

subsection \<open>The record of every run\<close>

lemma exhausted_of_issue:
  "in_order_ok tr \<Longrightarrow> 0 < dir_issues c tr \<Longrightarrow> exhausted c tr"
proof (induction tr)
  case Nil
  then show ?case by simp
next
  case (Cons ev tr)
  show ?case
  proof (cases "dir_issue_of ev = Some c")
    case True
    then obtain f p k where "ev = Issue (Delete_file f p k On_end_directory_deleted c)"
      by (cases ev rule: dir_issue_of.cases) simp_all
    with Cons.prems(1) show ?thesis by simp
  next
    case False
    with Cons show ?thesis by simp
  qed
qed

lemma stable_record:
  assumes snd: "sound fs 0 s" and ch: "chron prio canc c0 [] s"
    and rb: "record_base fs prio canc (trace s)"
  shows "record_ok fs prio canc (trace s)"
proof -
  from ch have led: "ledger s" and fam: "family c0 [] s" by (simp_all add: chron_def)
  from rb have ord: "in_order_ok (trace s)" by (simp add: record_base_def)
  have iff: "(dir_issues c (trace s) = 1) =
      (exhausted c (trace s) \<and> count_list (trace s) (Incr c) = count_list (trace s) (Decr c))" for c
  proof -
    from led have a: "count_list (trace s) (Incr c) = count_list (trace s) (Decr c) + pend_of s c"
      and b: "dir_issues c (trace s) = nops (pending s) Dir_delete c + count_list (trace s) (Complete c)"
      and e: "count_list (trace s) (Complete c) = (if gone s c then 1 else 0)"
      by (simp_all add: ledger_def)
    show ?thesis
    proof (cases "ctx_at s c")
      case None
      have "\<forall>op\<in>set (pending s). ctx_at s (op_ctx op) \<noteq> None"
        using sound_ops [OF snd] by (simp add: op_ok_def)
      then have D: "nops (pending s) Dir_delete c = 0" using None by (rule no_ops_of_dead)
      from None have p: "pend_of s c = 0" by (simp add: pend_of_def)
      show ?thesis
      proof (cases "c < length (heap s)")
        case True
        with None have "gone s c" by (simp add: gone_def)
        with b e D have one: "dir_issues c (trace s) = 1" by simp
        with exhausted_of_issue [OF ord, of c] have "exhausted c (trace s)" by simp
        with one a p show ?thesis by simp
      next
        case False
        then have "\<not> gone s c" by (simp add: gone_def)
        with b e D have "dir_issues c (trace s) = 0" by simp
        moreover from False fam have "\<not> exhausted c (trace s)" by (simp add: family_def)
        ultimately show ?thesis by simp
      qed
    next
      case (Some d)
      then have ng: "\<not> gone s c" by (simp add: gone_def)
      from Some have p: "pend_of s c = unat (num_files_pending d)" by (simp add: pend_of_def)
      from fam Some have A: "nops (pending s) Listing c = 0 \<Longrightarrow> exhausted c (trace s)"
        by (simp add: family_def)
      from fam have F: "exhausted c (trace s) \<Longrightarrow> nops (pending s) Listing c = 0"
        by (simp add: family_def)
      from sound_ctx [OF snd Some]
      consider "listing_phase (nops (pending s) Listing c) (nops (pending s) Dir_delete c) d"
        | "waiting_phase (nops (pending s) Listing c) (nops (pending s) Dir_delete c) d"
        | "deleting_phase (nops (pending s) Listing c) (nops (pending s) Dir_delete c) d"
        by (auto simp: ctx_phase_def)
      then show ?thesis
      proof cases
        case 1
        then have "nops (pending s) Listing c = Suc 0" "nops (pending s) Dir_delete c = 0"
          by (simp_all add: listing_phase_def)
        with F b e ng show ?thesis by auto
      next
        case 2
        then have "nops (pending s) Dir_delete c = 0" "num_files_pending d \<noteq> 0"
          by (simp_all add: waiting_phase_def)
        then have "dir_issues c (trace s) = 0" "pend_of s c \<noteq> 0"
          using b e ng p by (simp_all add: unat_eq_0)
        with a show ?thesis by simp
      next
        case 3
        then have "nops (pending s) Listing c = 0" "nops (pending s) Dir_delete c = Suc 0"
          "num_files_pending d = 0"
          by (simp_all add: deleting_phase_def)
        with A a b e ng p show ?thesis by simp
      qed
    qed
  qed
  have "\<forall>f\<in>set (observed c (trace s)). dispatched f (trace s)" for c
    using fam unfolding family_def by auto
  with rb ledger_bounds [OF snd led] iff show ?thesis
    unfolding record_ok_def by blast
qed

lemma record_ok_failed:
  assumes "record_ok fs prio canc tr"
  shows "record_ok fs prio canc (Done op (Some msg) # tr)"
proof -
  have seen: "seen c (Done op (Some msg)) = []" for c
    by (cases op) simp_all
  have "\<not> closes c (Done op (Some msg))" for c
    by (cases op) simp_all
  moreover have "event_ok (Done op (Some msg)) tr"
    by (cases op) simp_all
  ultimately show ?thesis
    using assms by (simp add: record_ok_def record_base_cons seen)
qed

lemma failure_trace:
  assumes "ctx_at s (op_ctx op) \<noteq> None"
  shows "trace (complete fs op (Some msg) s) = trace s"
  using assms
  by (cases op; cases "ctx_at s (op_ctx op)")
    (auto simp: on_enumerate_children_def on_next_files_def on_file_deleted_def
      on_end_directory_deleted_def fatal_gerror_def split: delete_callback.splits)

lemma failure_heap:
  assumes "ctx_at s (op_ctx op) \<noteq> None"
  shows "heap (complete fs op (Some msg) s) = heap s"
  using assms
  by (cases op; cases "ctx_at s (op_ctx op)")
    (auto simp: on_enumerate_children_def on_next_files_def on_file_deleted_def
      on_end_directory_deleted_def fatal_gerror_def split: delete_callback.splits)

lemma gone_cong: "heap s' = heap s \<Longrightarrow> gone s' c = gone s c"
  by (simp add: gone_def ctx_at_def)

lemma stable_tally:
  "chron prio canc c0 owed s \<Longrightarrow> count_list (trace s) (Complete c) = (if gone s c then 1 else 0)"
  by (simp add: chron_def ledger_def)

lemma chron_cong:
  assumes "trace s' = trace s" "pending s' = pending s" "heap s' = heap s"
  shows "chron prio canc c0 owed s' = chron prio canc c0 owed s"
proof -
  have ctx: "ctx_at s' q = ctx_at s q" for q by (simp add: ctx_at_def assms)
  have own: "own_target s' op = own_target s op" for op
    by (rule own_target_same) (simp add: ctx)
  show ?thesis
    by (simp add: chron_def ledger_def family_def params_def pend_of_def gone_def
        outstanding_def has_kid_def assms ctx own)
qed

lemma timeout_fields:
  "trace (fire_timeout s) = trace s" "pending (fire_timeout s) = pending s"
  "heap (fire_timeout s) = heap s"
  by (simp_all add: fire_timeout_def print_progress_def)

lemma success_history:
  assumes wf: "wf_node fs" and bound: "tree_size fs < 2 ^ 32"
    and snd: "sound fs 0 s" and ch: "chron prio canc 0 [] s"
    and rb: "record_base fs prio canc (trace s)"
    and pend: "pending s = xs @ op # ys" and en: "possible fs op None"
  shows "sound fs 0 (complete fs op None (emit (Done op None) (s\<lparr>pending := xs @ ys\<rparr>))) \<and>
         chron prio canc 0 [] (complete fs op None (emit (Done op None) (s\<lparr>pending := xs @ ys\<rparr>))) \<and>
         record_base fs prio canc
           (trace (complete fs op None (emit (Done op None) (s\<lparr>pending := xs @ ys\<rparr>))))"
proof (cases op)
  case (Enumerate_children f attrs fl p k c)
  with en obtain infos where dir: "list_dir fs f fl = Some infos" by auto
  from enumerated_sound [OF snd pend [unfolded Enumerate_children] wf dir]
    enumerated_chron [OF snd ch rb pend [unfolded Enumerate_children]]
  show ?thesis using Enumerate_children dir by simp
next
  case (Next_files e n p k c)
  show ?thesis
  proof (cases "take n (remaining e) = []")
    case True
    from batch_empty_sound [OF snd pend [unfolded Next_files] True]
      batch_empty_chron [OF snd ch rb pend [unfolded Next_files] True]
    show ?thesis using Next_files True by (simp del: take_eq_Nil take_eq_Nil2)
  next
    case False
    from batch_sound [OF snd pend [unfolded Next_files] False bound]
      batch_chron [OF snd ch rb pend [unfolded Next_files] False bound]
    show ?thesis using Next_files by simp
  qed
next
  case (Delete_file f p k cb c)
  show ?thesis
  proof (cases cb)
    case On_file_deleted
    from file_deleted_sound [OF snd pend [unfolded Delete_file On_file_deleted] bound]
      file_deleted_chron [OF snd ch rb pend [unfolded Delete_file On_file_deleted] bound]
    show ?thesis using Delete_file On_file_deleted by simp
  next
    case On_end_directory_deleted
    from dir_deleted_sound [OF snd pend [unfolded Delete_file On_end_directory_deleted] bound]
      dir_deleted_chron [OF snd ch rb pend [unfolded Delete_file On_end_directory_deleted] bound]
    show ?thesis using Delete_file On_end_directory_deleted by simp
  qed
qed

lemma iteration_history:
  assumes wf: "wf_node fs" and bound: "tree_size fs < 2 ^ 32"
    and snd: "sound fs 0 s" and ch: "chron prio canc 0 [] s"
    and rb: "record_base fs prio canc (trace s)"
  shows "history fs prio canc (iteration fs e s)"
proof (cases e)
  case Timeout
  have "sound fs 0 (fire_timeout s)" using snd by (rule timeout_sound)
  moreover have "chron prio canc 0 [] (fire_timeout s)"
    using ch by (simp add: chron_cong [OF timeout_fields])
  moreover have "record_base fs prio canc (trace (fire_timeout s))"
    using rb by (simp add: timeout_fields)
  ultimately show ?thesis
    using Timeout stable_record [of fs "fire_timeout s" prio canc 0]
      stable_tally [of prio canc 0 "[]" "fire_timeout s"]
    by (simp add: history_def)
next
  case (Ready i r)
  show ?thesis
  proof (cases "i < length (pending s) \<and> possible fs (pending s ! i) r")
    case False
    with Ready snd ch rb stable_record [OF snd ch rb] stable_tally [OF ch] show ?thesis
      by (auto simp: history_def)
  next
    case True
    let ?op = "pending s ! i"
    let ?xs = "take i (pending s)" and ?ys = "drop (Suc i) (pending s)"
    let ?s0 = "emit (Done ?op r) (s\<lparr>pending := ?xs @ ?ys\<rparr>)"
    from True have pend: "pending s = ?xs @ ?op # ?ys" by (simp add: id_take_nth_drop)
    from True Ready have it: "iteration fs e s = complete fs ?op r ?s0" by simp
    from snd have "op_ok fs s ?op"
      using True by (simp add: sound_def globals_ok_def)
    then have livec: "ctx_at ?s0 (op_ctx ?op) \<noteq> None" by (simp add: op_ok_def)
    show ?thesis
    proof (cases r)
      case (Some msg)
      have "gone (complete fs ?op (Some msg) ?s0) c = gone s c" for c
        using gone_cong [OF failure_heap [OF livec], of fs msg c] Some
        by (simp add: gone_def ctx_at_def)
      moreover have "count_list (trace ?s0) (Complete c) = count_list (trace s) (Complete c)" for c
        by simp
      ultimately show ?thesis
        using failure_exits [OF livec] failure_trace [OF livec]
          record_ok_failed [OF stable_record [OF snd ch rb], of ?op msg] stable_tally [OF ch] Some
        by (simp add: it history_def)
    next
      case None
      with True have en: "possible fs ?op None" by simp
      from success_history [OF wf bound snd ch rb pend en]
      have a: "sound fs 0 (complete fs ?op None (emit (Done ?op None) (s\<lparr>pending := ?xs @ ?ys\<rparr>)))"
        and b: "chron prio canc 0 [] (complete fs ?op None (emit (Done ?op None) (s\<lparr>pending := ?xs @ ?ys\<rparr>)))"
        and c: "record_base fs prio canc
           (trace (complete fs ?op None (emit (Done ?op None) (s\<lparr>pending := ?xs @ ?ys\<rparr>))))"
        by simp_all
      from stable_record [OF a b c] a b c stable_tally [OF b] show ?thesis
        using None by (simp add: it history_def)
    qed
  qed
qed

lemma step_history:
  assumes "wf_node fs" "tree_size fs < 2 ^ 32" "history fs prio canc s"
  shows "history fs prio canc (step fs s e)"
proof (cases "running s")
  case True
  with assms(3)
  have "sound fs 0 s" "chron prio canc 0 [] s" "record_base fs prio canc (trace s)"
    by (auto simp: history_def running_def)
  from iteration_history [OF assms(1,2) this] True show ?thesis by (simp add: step_def)
next
  case False
  with assms(3) show ?thesis by (simp add: step_def)
qed

lemma run_history:
  assumes "wf_node fs" "tree_size fs < 2 ^ 32" "history fs prio canc s"
  shows "history fs prio canc (g_main_loop_run fs evs s)"
  using assms(3)
  by (induction evs arbitrary: s) (simp_all add: g_main_loop_run_def step_history [OF assms(1,2)])

lemma launch_history:
  assumes dir: "is_dir fs"
  shows "history fs prio canc (launch p prio canc)"
proof -
  let ?s = "launch p prio canc"
  let ?f = "g_file_new_for_path p"
  have at: "ctx_at ?s q = (if q = 0 then Some (fresh_ctx ?f prio canc On_rm_finished) else None)" for q
    by (simp add: launch_def g_timeout_add_seconds_def rm_rf_async_alt init_state_def ctx_at_def
        issue_def emit_def)
  have pend: "pending ?s = [first_listing ?f prio canc 0]"
    by (simp add: launch_def g_timeout_add_seconds_def rm_rf_async_alt init_state_def issue_def
        emit_def)
  have tr: "trace ?s = [Issue (first_listing ?f prio canc 0)]"
    by (simp add: launch_def g_timeout_add_seconds_def rm_rf_async_alt init_state_def issue_def
        emit_def)
  have hp: "length (heap ?s) = 1"
    by (simp add: launch_def g_timeout_add_seconds_def rm_rf_async_alt init_state_def issue_def
        emit_def)
  have "ledger ?s"
    unfolding ledger_def
  proof
    fix q
    show "count_list (trace ?s) (Incr q) = count_list (trace ?s) (Decr q) + pend_of ?s q \<and>
          dir_issues q (trace ?s) =
            nops (pending ?s) Dir_delete q + count_list (trace ?s) (Complete q) \<and>
          count_list (trace ?s) (Complete q) = (if gone ?s q then 1 else 0)"
      by (cases "q = 0")
        (simp_all add: tr pend first_listing_def pend_of_def at gone_def hp fresh_ctx_def)
  qed
  moreover have "family 0 [] ?s"
    by (simp add: family_def tr pend first_listing_def at hp)
  moreover have "params prio canc ?s"
    by (simp add: params_def at fresh_ctx_def)
  moreover have rb: "record_base fs prio canc (trace ?s)"
    using dir by (simp add: tr record_base_def first_listing_def g_file_new_for_path_def)
  ultimately have ch: "chron prio canc 0 [] ?s" by (simp add: chron_def)
  note snd = launch_sound [OF dir, of p prio canc]
  from stable_record [OF snd ch rb] snd rb ch stable_tally [OF ch] show ?thesis
    by (simp add: history_def)
qed

lemma run_record:
  assumes "is_dir fs" "wf_node fs" "tree_size fs < 2 ^ 32"
  shows "record_ok fs prio canc (trace (g_main_loop_run fs evs (launch p prio canc)))"
  using run_history [OF assms(2,3) launch_history [OF assms(1)]] by (simp add: history_def)

lemma check_output [simp]:
  "stdout (check_no_children c s) = stdout s" "timer (check_no_children c s) = timer s"
  by (simp_all add: check_no_children_def use_after_free_def g_file_delete_async_def
      split: option.splits)

lemma dispatch_output [simp]:
  "stdout (dispatch_entry c parent s i) = stdout s" "timer (dispatch_entry c parent s i) = timer s"
  by (simp_all add: dispatch_entry_def use_after_free_def g_file_delete_async_def Let_def
      split: option.splits)

lemma dispatch_loop_output [simp]:
  "stdout (foldl (dispatch_entry c parent) s files) = stdout s"
  "timer (foldl (dispatch_entry c parent) s files) = timer s"
  by (induction files arbitrary: s) simp_all

lemma complete_output:
  "stdout (complete fs op r s) = stdout s \<and> timer (complete fs op r s) = timer s"
proof (cases op)
  case (Enumerate_children f attrs fl prio canc c)
  then show ?thesis
    by (simp add: on_enumerate_children_def use_after_free_def fatal_gerror_def
        g_file_enumerator_next_files_async_def split: option.splits)
next
  case (Next_files e n prio canc c)
  then show ?thesis
    by (simp add: on_next_files_def next_files_head_def use_after_free_def fatal_gerror_def
        g_file_enumerator_next_files_async_def g_file_enumerator_close_def split: option.splits)
next
  case (Delete_file f prio canc cb c)
  then show ?thesis
    by (simp add: on_file_deleted_def on_end_directory_deleted_def use_after_free_def
        fatal_gerror_def g_simple_async_result_complete_def on_rm_rf_complete_def
        on_rm_finished_def Let_def
        split: option.splits delete_callback.splits ready_callback.splits sum.splits)
qed

lemma step_output:
  "(timer s \<and> stdout s = [] \<or> \<not> timer s \<and> length (stdout s) \<le> 1) \<Longrightarrow>
   (timer (step fs s e) \<and> stdout (step fs s e) = [] \<or>
    \<not> timer (step fs s e) \<and> length (stdout (step fs s e)) \<le> 1)"
  by (cases e) (auto simp: step_def complete_output fire_timeout_def print_progress_def)

lemma run_output:
  "(timer s \<and> stdout s = [] \<or> \<not> timer s \<and> length (stdout s) \<le> 1) \<Longrightarrow>
   (timer (g_main_loop_run fs evs s) \<and> stdout (g_main_loop_run fs evs s) = [] \<or>
    \<not> timer (g_main_loop_run fs evs s) \<and> length (stdout (g_main_loop_run fs evs s)) \<le> 1)"
proof (induction evs arbitrary: s)
  case Nil
  then show ?case by (simp add: g_main_loop_run_def)
next
  case (Cons e evs)
  from Cons.IH [OF step_output [OF Cons.prems]] show ?case by (simp add: g_main_loop_run_def)
qed

lemma all_dead:
  assumes snd: "sound fs k s" and root: "ctx_at s 0 = None"
  shows "ctx_at s q = None"
proof (induction q rule: less_induct)
  case (less q)
  show ?case
  proof (cases "ctx_at s q")
    case None
    then show ?thesis .
  next
    case (Some d)
    with sound_ctx [OF snd] have "sink_ok s q (callback (result d))"
      by (simp add: ctx_base_def)
    then show ?thesis
    proof (cases "callback (result d)")
      case On_rm_finished
      with \<open>sink_ok s q (callback (result d))\<close> have "q = 0" by simp
      with root Some show ?thesis by simp
    next
      case (On_rm_rf_complete p)
      with \<open>sink_ok s q (callback (result d))\<close> have "p < q" "ctx_at s p \<noteq> None" by simp_all
      with less.IH [of p] show ?thesis by simp
    qed
  qed
qed

lemma finished_empty:
  assumes snd: "sound fs k s" and root: "ctx_at s 0 = None"
  shows "pending s = []" and "live s = 0"
proof -
  have dead: "ctx_at s q = None" for q using snd root by (rule all_dead)
  from sound_ops [OF snd] have "\<forall>op\<in>set (pending s). ctx_at s (op_ctx op) \<noteq> None"
    by (simp add: op_ok_def)
  with dead show "pending s = []" by (cases "pending s") auto
  have "x = None" if "x \<in> set (heap s)" for x
  proof -
    from that obtain j where "j < length (heap s)" "heap s ! j = x"
      by (auto simp: in_set_conv_nth)
    with dead [of j] show ?thesis by (simp add: ctx_at_def)
  qed
  then have "filter (\<lambda>x. x \<noteq> None) (heap s) = []" by (auto simp: filter_empty_conv)
  then show "live s = 0" by (simp add: live_def)
qed

lemma finish_status:
  "exit_status (main_finish s) = Some 0 \<longleftrightarrow>
   exit_status s = Some 0 \<or> (exit_status s = None \<and> \<not> fault s \<and> \<not> loop_running s)"
  by (auto simp: main_finish_def print_progress_def)


lemma check_counter [simp]: "files_deleted (check_no_children c s) = files_deleted s"
  by (simp add: check_no_children_def use_after_free_def g_file_delete_async_def
      split: option.splits)

lemma dispatch_counter [simp]: "files_deleted (dispatch_entry c parent s i) = files_deleted s"
  by (simp add: dispatch_entry_def use_after_free_def g_file_delete_async_def Let_def
      split: option.splits)

lemma dispatch_loop_counter [simp]:
  "files_deleted (foldl (dispatch_entry c parent) s files) = files_deleted s"
  by (induction files arbitrary: s) simp_all




lemma in_order_nth:
  "in_order_ok tr \<Longrightarrow> i < length tr \<Longrightarrow> event_ok (tr ! i) (drop (Suc i) tr)"
proof (induction tr arbitrary: i)
  case Nil
  then show ?case by simp
next
  case (Cons ev tr)
  then show ?case by (cases i) simp_all
qed


lemma run_stable:
  assumes "is_dir fs" "wf_node fs" "tree_size fs < 2 ^ 32"
    and "exit_status (g_main_loop_run fs evs (launch p prio canc)) \<noteq> Some 1"
  shows "sound fs 0 (g_main_loop_run fs evs (launch p prio canc))"
    and "chron prio canc 0 [] (g_main_loop_run fs evs (launch p prio canc))"
  using run_history [OF assms(2,3) launch_history [OF assms(1)], of prio canc evs p] assms(4)
  by (simp_all add: history_def)

section \<open>Progress output\<close>

text \<open>
  Claim C5 says that the counter is printed once per second while the operation runs.
  \<open>print_progress\<close> returns \<open>FALSE\<close>, so GLib removes the timeout source after its first
  call: however long the main loop runs and however often the timeout could fire, at most one
  line is printed before the loop ends. With an empty directory and three seconds elapsed
  before any completion, one line is printed, not three.
\<close>

theorem progress_printed_once:
  "length (stdout (g_main_loop_run fs evs (launch p prio canc))) \<le> 1 \<and>
   stdout (g_main_loop_run (Dir ''d'' []) [Timeout, Timeout, Timeout] (main_start [''rm'', ''d''])) =
     [Files_deleted 0]"
proof
  have "timer (launch p prio canc) \<and> stdout (launch p prio canc) = []"
    by (simp add: launch_def g_timeout_add_seconds_def init_state_def)
  from run_output [of "launch p prio canc" fs evs] this
  show "length (stdout (g_main_loop_run fs evs (launch p prio canc))) \<le> 1" by auto
  show "stdout (g_main_loop_run (Dir ''d'' []) [Timeout, Timeout, Timeout] (main_start [''rm'', ''d''])) =
     [Files_deleted 0]"
    by code_simp
qed

section \<open>The command line\<close>

text \<open>
  Claim C10. \<open>main\<close> does not look at \<open>argc\<close>: it reads \<open>argv[1]\<close> and nothing else of
  the command line. Called with the program name alone, it gives \<open>NULL\<close> to
  \<open>g_file_new_for_path\<close>; whatever follows the first argument is ignored.
\<close>

theorem main_reads_only_argv1:
  "main_start [prog] =
     g_timeout_add_seconds 1
       (rm_rf_async (g_file_new_for_path None) G_PRIORITY_DEFAULT None On_rm_finished init_state)
   \<and> main_start (prog # a # others) =
     g_timeout_add_seconds 1
       (rm_rf_async (g_file_new_for_path (Some a)) G_PRIORITY_DEFAULT None On_rm_finished
         init_state)
   \<and> main fs (prog # a # others) evs = main fs [prog, a] evs"
  by (simp add: main_def main_start_def launch_def argv_at_def)

section \<open>Errors\<close>

lemma failures_simps [simp]:
  "failures [] = []"
  "failures (ev # tr) = (if failed_event ev then ev # failures tr else failures tr)"
  by (simp_all add: failures_def)

lemma check_failures [simp]:
  "failures (trace (check_no_children c s)) = failures (trace s)"
  "stderr (check_no_children c s) = stderr s"
  by (simp_all add: check_no_children_def use_after_free_def g_file_delete_async_def
      issue_def emit_def split: option.splits)

lemma dispatch_failures [simp]:
  "failures (trace (dispatch_entry c parent s i)) = failures (trace s)"
  "stderr (dispatch_entry c parent s i) = stderr s"
  by (simp_all add: dispatch_entry_def use_after_free_def g_file_delete_async_def Let_def
      rm_rf_async_def g_file_enumerate_children_async_def issue_def emit_def modify_def
      split: option.splits)

lemma dispatch_loop_failures [simp]:
  "failures (trace (foldl (dispatch_entry c parent) s files)) = failures (trace s)"
  "stderr (foldl (dispatch_entry c parent) s files) = stderr s"
  by (induction files arbitrary: s) simp_all

lemma fields_simps [simp]:
  "stderr (emit ev s) = stderr s" "stderr (issue op s) = stderr s"
  "stderr (modify c f s) = stderr s" "stderr (g_free c s) = stderr s"
  "stderr (g_main_loop_quit s) = stderr s" "stderr (use_after_free s) = stderr s"
  "trace (use_after_free s) = trace s" "trace (g_free c s) = trace s"
  "exit_status (g_free c s) = exit_status s"
  "trace (fatal_gerror msg s) = trace s" "exit_status (fatal_gerror msg s) = Some 1"
  "stderr (fatal_gerror msg s) = stderr s @ [msg]"
  by (simp_all add: emit_def issue_def modify_def g_free_def g_main_loop_quit_def
      use_after_free_def fatal_gerror_def)

lemma complete_failures:
  "failures (trace (complete fs op None s)) = failures (trace s)"
proof (cases op)
  case (Enumerate_children f attrs fl prio canc c)
  then show ?thesis
    by (simp add: on_enumerate_children_def g_file_enumerator_next_files_async_def
        split: option.splits)
next
  case (Next_files e n prio canc c)
  then show ?thesis
    by (simp add: on_next_files_def next_files_head_def g_file_enumerator_next_files_async_def
        g_file_enumerator_close_def split: option.splits)
next
  case (Delete_file f prio canc cb c)
  then show ?thesis
    by (simp add: on_file_deleted_def on_end_directory_deleted_def
        g_simple_async_result_complete_def on_rm_rf_complete_def on_rm_finished_def Let_def
        split: option.splits delete_callback.splits ready_callback.splits sum.splits)
qed

lemma complete_stderr:
  "stderr (complete fs op None s) = stderr s \<or> exit_status (complete fs op None s) = Some 1"
proof (cases op)
  case (Enumerate_children f attrs fl prio canc c)
  then show ?thesis
    by (simp add: on_enumerate_children_def g_file_enumerator_next_files_async_def
        split: option.splits)
next
  case (Next_files e n prio canc c)
  then show ?thesis
    by (simp add: on_next_files_def next_files_head_def g_file_enumerator_next_files_async_def
        g_file_enumerator_close_def split: option.splits)
next
  case (Delete_file f prio canc cb c)
  then show ?thesis
    by (simp add: on_file_deleted_def on_end_directory_deleted_def
        g_simple_async_result_complete_def on_rm_rf_complete_def on_rm_finished_def Let_def
        split: option.splits delete_callback.splits ready_callback.splits sum.splits)
qed

lemma failure_stderr:
  assumes "ctx_at s (op_ctx op) \<noteq> None"
  shows "stderr (complete fs op (Some msg) s) = stderr s @ [msg]"
  using assms
  by (cases op; cases "ctx_at s (op_ctx op)")
    (auto simp: on_enumerate_children_def on_next_files_def on_file_deleted_def
      on_end_directory_deleted_def split: delete_callback.splits)

lemma failing_step:
  assumes snd: "sound fs 0 s" and run: "running s" and i: "i < length (pending s)"
    and poss: "possible fs (pending s ! i) (Some msg)"
  shows "exit_status (step fs s (Ready i (Some msg))) = Some 1"
    and "stderr (step fs s (Ready i (Some msg))) = stderr s @ [msg]"
    and "trace (step fs s (Ready i (Some msg))) = Done (pending s ! i) (Some msg) # trace s"
proof -
  let ?op = "pending s ! i"
  let ?s0 = "emit (Done ?op (Some msg)) (s\<lparr>pending := take i (pending s) @ drop (Suc i) (pending s)\<rparr>)"
  from i run poss have it: "step fs s (Ready i (Some msg)) = complete fs ?op (Some msg) ?s0"
    by (simp add: step_def)
  from sound_ops [OF snd, of ?op] i have "ctx_at ?s0 (op_ctx ?op) \<noteq> None"
    by (simp add: op_ok_def)
  from failure_exits [OF this] failure_trace [OF this] failure_stderr [OF this]
  show "exit_status (step fs s (Ready i (Some msg))) = Some 1"
    and "stderr (step fs s (Ready i (Some msg))) = stderr s @ [msg]"
    and "trace (step fs s (Ready i (Some msg))) = Done (pending s ! i) (Some msg) # trace s"
    by (simp_all add: it)
qed

lemma step_aborting:
  assumes wf: "wf_node fs" and bound: "tree_size fs < 2 ^ 32"
    and h: "history fs prio canc s" and a: "aborting s"
  shows "aborting (step fs s e)"
proof (cases "running s")
  case False
  with a show ?thesis by (simp add: step_def)
next
  case True
  then have st: "exit_status s = None" "loop_running s" by (simp_all add: running_def)
  with h have snd: "sound fs 0 s" and ch: "chron prio canc 0 [] s"
    and rb: "record_base fs prio canc (trace s)"
    by (simp_all add: history_def)
  from a st have clean: "failures (trace s) = []" "stderr s = []" by (simp_all add: aborting_def)
  show ?thesis
  proof (cases e)
    case Timeout
    with True st clean show ?thesis
      by (simp add: step_def aborting_def fire_timeout_def print_progress_def)
  next
    case (Ready i r)
    show ?thesis
    proof (cases "i < length (pending s) \<and> possible fs (pending s ! i) r")
      case False
      with Ready True a show ?thesis by (auto simp: step_def)
    next
      case en: True
      let ?op = "pending s ! i"
      let ?xs = "take i (pending s)" and ?ys = "drop (Suc i) (pending s)"
      from en have pend: "pending s = ?xs @ ?op # ?ys" by (simp add: id_take_nth_drop)
      show ?thesis
      proof (cases r)
        case (Some msg)
        from snd st have "ctx_at s 0 \<noteq> None" by (simp add: sound_root)
        then obtain d0 where "ctx_at s 0 = Some d0" by auto
        with ch have c0: "count_list (trace s) (Complete 0) = 0"
          by (simp add: chron_def live_not_done)
        from en Some have poss: "possible fs (pending s ! i) (Some msg)" by simp
        from en have i: "i < length (pending s)" by simp
        from failing_step [OF snd True i poss] c0 clean show ?thesis
          unfolding Ready Some by (simp add: aborting_def)
      next
        case None
        let ?s0 = "emit (Done ?op None) (s\<lparr>pending := ?xs @ ?ys\<rparr>)"
        from en None Ready True have it: "step fs s e = complete fs ?op None ?s0"
          by (simp add: step_def)
        from en None have "possible fs ?op None" by simp
        from success_history [OF wf bound snd ch rb pend this]
        have "sound fs 0 (complete fs ?op None ?s0)" by simp
        then have ex: "exit_status (complete fs ?op None ?s0) = None" by (simp add: sound_status)
        with complete_stderr [of fs ?op ?s0] have "stderr (complete fs ?op None ?s0) = stderr ?s0"
          by simp
        with ex clean complete_failures [of fs ?op ?s0] show ?thesis
          by (simp add: it aborting_def)
      qed
    qed
  qed
qed

lemma run_aborting:
  assumes "wf_node fs" "tree_size fs < 2 ^ 32"
  shows "history fs prio canc s \<Longrightarrow> aborting s \<Longrightarrow> aborting (g_main_loop_run fs evs s)"
proof (induction evs arbitrary: s)
  case Nil
  then show ?case by (simp add: g_main_loop_run_def)
next
  case (Cons e evs)
  from step_history [OF assms Cons.prems(1)] step_aborting [OF assms Cons.prems]
  have "aborting (g_main_loop_run fs evs (step fs s e))" by (rule Cons.IH)
  then show ?case by (simp add: g_main_loop_run_def)
qed

lemma launch_aborting: "aborting (launch p prio canc)"
  by (simp add: aborting_def launch_def g_timeout_add_seconds_def rm_rf_async_def Let_def
      g_file_enumerate_children_async_def issue_def init_state_def)

text \<open>
  Claim C4 says that the error reaches the top-level caller through the completion
  notification. In the code every callback that sees an error calls \<open>fatal_gerror\<close>, which
  prints the message and calls \<open>exit (1)\<close> there and then: no result is ever given an error,
  and the result of the top-level operation is never completed. So, in every run: at most one
  operation failure is ever delivered, and exactly one if the exit status is 1; what was
  written to the error stream is the message of that failure; with exit status 1 the failure
  is the last event of the run, no later event does anything, and the completion of the
  top-level operation has not been called. While the run goes on, the failure of any
  operation in flight exits with status 1. \<open>main\<close> returns 0 exactly if the loop was quit
  without an exit, and then nothing has failed.
\<close>

theorem first_error_exits_in_callback:
  assumes "is_dir fs" and "wf_node fs" and "tree_size fs < 2 ^ 32"
  shows "length (failures (record_of fs evs p prio canc)) =
           (if exit_status (g_main_loop_run fs evs (launch p prio canc)) = Some 1 then 1 else 0) \<and>
         stderr (g_main_loop_run fs evs (launch p prio canc)) =
           map failure_message (failures (record_of fs evs p prio canc)) \<and>
         (exit_status (g_main_loop_run fs evs (launch p prio canc)) = Some 1 \<longrightarrow>
            failed_event (hd (record_of fs evs p prio canc)) \<and>
            count_list (record_of fs evs p prio canc) (Complete 0) = 0 \<and>
            step fs (g_main_loop_run fs evs (launch p prio canc)) e =
              g_main_loop_run fs evs (launch p prio canc)) \<and>
         (running (g_main_loop_run fs evs (launch p prio canc)) \<and>
          i < length (pending (g_main_loop_run fs evs (launch p prio canc))) \<and>
          possible fs (pending (g_main_loop_run fs evs (launch p prio canc)) ! i) (Some msg) \<longrightarrow>
            exit_status (step fs (g_main_loop_run fs evs (launch p prio canc)) (Ready i (Some msg))) =
              Some 1 \<and>
            stderr (step fs (g_main_loop_run fs evs (launch p prio canc)) (Ready i (Some msg))) =
              [msg] \<and>
            trace (step fs (g_main_loop_run fs evs (launch p prio canc)) (Ready i (Some msg))) =
              Done (pending (g_main_loop_run fs evs (launch p prio canc)) ! i) (Some msg) #
              record_of fs evs p prio canc) \<and>
         ((exit_status (main_finish (g_main_loop_run fs evs (launch p prio canc))) = Some 0) =
            (exit_status (g_main_loop_run fs evs (launch p prio canc)) = None \<and>
             \<not> loop_running (g_main_loop_run fs evs (launch p prio canc)))) \<and>
         (exit_status (main_finish (g_main_loop_run fs evs (launch p prio canc))) = Some 0 \<longrightarrow>
            failures (record_of fs evs p prio canc) = [] \<and>
            stderr (main_finish (g_main_loop_run fs evs (launch p prio canc))) = [])"
proof -
  let ?R = "g_main_loop_run fs evs (launch p prio canc)"
  let ?tr = "record_of fs evs p prio canc"
  note lh = launch_history [OF assms(1), of prio canc p]
  have h: "history fs prio canc ?R" by (rule run_history [OF assms(2,3) lh])
  have ab: "aborting ?R" by (rule run_aborting [OF assms(2,3) lh launch_aborting])
  then have a: "length (failures ?tr) = (if exit_status ?R = Some 1 then 1 else 0)"
    and b: "stderr ?R = map failure_message (failures ?tr)"
    by (simp_all add: aborting_def record_of_def)
  have c: "failed_event (hd ?tr) \<and> count_list ?tr (Complete 0) = 0 \<and> step fs ?R e = ?R"
    if "exit_status ?R = Some 1"
    using ab that by (simp add: aborting_def record_of_def step_def running_def)
  have nofault: "\<not> fault ?R" if "exit_status ?R = None"
  proof -
    from h that have "sound fs 0 ?R" by (simp add: history_def)
    then show ?thesis by (simp add: sound_def globals_ok_def)
  qed
  have d: "exit_status (step fs ?R (Ready i (Some msg))) = Some 1 \<and>
      stderr (step fs ?R (Ready i (Some msg))) = [msg] \<and>
      trace (step fs ?R (Ready i (Some msg))) = Done (pending ?R ! i) (Some msg) # ?tr"
    if run: "running ?R" and i: "i < length (pending ?R)"
      and poss: "possible fs (pending ?R ! i) (Some msg)"
  proof -
    from run have st: "exit_status ?R = None" by (simp add: running_def)
    with h have snd: "sound fs 0 ?R" by (simp add: history_def)
    from ab st have "stderr ?R = []" by (simp add: aborting_def)
    with failing_step [OF snd run i poss] show ?thesis by (simp add: record_of_def)
  qed
  have e: "(exit_status (main_finish ?R) = Some 0) = (exit_status ?R = None \<and> \<not> loop_running ?R)"
  proof -
    from h have "exit_status ?R = Some 1 \<or> exit_status ?R = None"
      by (auto simp: history_def dest: sound_status)
    with nofault show ?thesis by (auto simp: finish_status)
  qed
  have f: "failures ?tr = [] \<and> stderr (main_finish ?R) = []"
    if "exit_status (main_finish ?R) = Some 0"
  proof -
    from that e have "exit_status ?R = None" by simp
    with a b have "failures ?tr = []" "stderr ?R = []" by simp_all
    then show ?thesis by (simp add: main_finish_def print_progress_def)
  qed
  from a b c d e f show ?thesis by blast
qed

theorem first_error_exits_in_callback_witness:
  "is_dir link_tree \<and> wf_node link_tree \<and> tree_size link_tree < 2 ^ 32 \<and>
   running (g_main_loop_run link_tree (in_order 2) (launch (Some ''d'') 0 None)) \<and>
   1 < length (pending (g_main_loop_run link_tree (in_order 2) (launch (Some ''d'') 0 None))) \<and>
   possible link_tree
     (pending (g_main_loop_run link_tree (in_order 2) (launch (Some ''d'') 0 None)) ! 1)
     (Some ''Permission denied'') \<and>
   exit_status (step link_tree (g_main_loop_run link_tree (in_order 2) (launch (Some ''d'') 0 None))
      (Ready 1 (Some ''Permission denied''))) = Some 1 \<and>
   stderr (step link_tree (g_main_loop_run link_tree (in_order 2) (launch (Some ''d'') 0 None))
      (Ready 1 (Some ''Permission denied''))) = [''Permission denied''] \<and>
   exit_status (g_main_loop_run link_tree [Ready 0 (Some ''No such file'')] (launch (Some ''d'') 0 None))
     = Some 1 \<and>
   failed_event (hd (record_of link_tree [Ready 0 (Some ''No such file'')] (Some ''d'') 0 None)) \<and>
   count_list (record_of link_tree [Ready 0 (Some ''No such file'')] (Some ''d'') 0 None) (Complete 0)
     = 0 \<and>
   exit_status (main_finish (g_main_loop_run link_tree (in_order 6) (launch (Some ''d'') 0 None)))
     = Some 0 \<and>
   failures (record_of link_tree (in_order 6) (Some ''d'') 0 None) = [] \<and>
   stderr (main_finish (g_main_loop_run link_tree (in_order 6) (launch (Some ''d'') 0 None))) = []"
proof -
  let ?R2 = "g_main_loop_run link_tree (in_order 2) (launch (Some ''d'') 0 None)"
  let ?R1 = "g_main_loop_run link_tree [Ready 0 (Some ''No such file'')] (launch (Some ''d'') 0 None)"
  let ?R6 = "g_main_loop_run link_tree (in_order 6) (launch (Some ''d'') 0 None)"
  have dir: "is_dir link_tree" by (simp add: link_tree_def)
  have wf: "wf_node link_tree" by (simp add: link_tree_def)
  have small: "tree_size link_tree < 2 ^ 32" by (simp add: link_tree_def)
  have run: "running ?R2" by code_simp
  have len: "1 < length (pending ?R2)" by code_simp
  have poss: "possible link_tree (pending ?R2 ! 1) (Some ''Permission denied'')" by code_simp
  have ex1: "exit_status ?R1 = Some 1" by code_simp
  have ex6: "exit_status (main_finish ?R6) = Some 0" by code_simp
  from first_error_exits_in_callback [OF dir wf small,
      where evs = "in_order 2" and p = "Some ''d''" and prio = 0 and canc = None and i = 1
        and msg = "''Permission denied''" and e = Timeout] run len poss
  have a: "exit_status (step link_tree ?R2 (Ready 1 (Some ''Permission denied''))) = Some 1"
    "stderr (step link_tree ?R2 (Ready 1 (Some ''Permission denied''))) = [''Permission denied'']"
    by simp_all
  from first_error_exits_in_callback [OF dir wf small,
      where evs = "[Ready 0 (Some ''No such file'')]" and p = "Some ''d''" and prio = 0
        and canc = None and i = 0 and msg = "''x''" and e = Timeout] ex1
  have b: "failed_event (hd (record_of link_tree [Ready 0 (Some ''No such file'')] (Some ''d'') 0 None))"
    "count_list (record_of link_tree [Ready 0 (Some ''No such file'')] (Some ''d'') 0 None) (Complete 0) = 0"
    by simp_all
  from first_error_exits_in_callback [OF dir wf small,
      where evs = "in_order 6" and p = "Some ''d''" and prio = 0 and canc = None and i = 0
        and msg = "''x''" and e = Timeout] ex6
  have c: "failures (record_of link_tree (in_order 6) (Some ''d'') 0 None) = []"
    "stderr (main_finish ?R6) = []"
    by simp_all
  from dir wf small run len poss ex1 ex6 a b c show ?thesis by simp
qed

theorem error_not_passed_to_completion:
  "exit_status (main link_tree [''rm'', ''d'']
      [Ready 0 None, Ready 0 None, Ready 0 None, Ready 1 (Some ''Permission denied'')]) = Some 1 \<and>
   stderr (main link_tree [''rm'', ''d'']
      [Ready 0 None, Ready 0 None, Ready 0 None, Ready 1 (Some ''Permission denied'')]) =
     [''Permission denied''] \<and>
   count_list (trace (main link_tree [''rm'', ''d'']
      [Ready 0 None, Ready 0 None, Ready 0 None, Ready 1 (Some ''Permission denied'')]))
     (Complete 0) = 0 \<and>
   ctx_at (main link_tree [''rm'', ''d'']
      [Ready 0 None, Ready 0 None, Ready 0 None, Ready 1 (Some ''Permission denied'')]) 0 =
     Some \<lparr>priority = 0, cancellable = None, num_files_pending = 2, have_more_files = False,
       ctx_file = GFile (Some ''d'') [],
       result = \<lparr>source_object = GFile (Some ''d'') [], callback = On_rm_finished,
         res_error = None\<rparr>\<rparr> \<and>
   loop_running (main link_tree [''rm'', ''d'']
      [Ready 0 None, Ready 0 None, Ready 0 None, Ready 1 (Some ''Permission denied'')])"
  by code_simp

lemma stable_issue:
  assumes snd: "sound fs 0 s" and ch: "chron prio canc c0 [] s"
    and rb: "record_base fs prio canc (trace s)"
  shows "(dir_issues c (trace s) = 1) = (exhausted c (trace s) \<and> in_flight s c = 0)"
proof -
  from ch have led: "ledger s" and fam: "family c0 [] s" by (simp_all add: chron_def)
  from rb have ord: "in_order_ok (trace s)" by (simp add: record_base_def)
  from led have b: "dir_issues c (trace s) = nops (pending s) Dir_delete c + count_list (trace s) (Complete c)"
    and e: "count_list (trace s) (Complete c) = (if gone s c then 1 else 0)"
    by (simp_all add: ledger_def)
  have opl: "\<forall>op\<in>set (pending s). ctx_at s (op_ctx op) \<noteq> None"
    using sound_ops [OF snd] by (simp add: op_ok_def)
  have snk: "\<And>q d. ctx_at s q = Some d \<Longrightarrow> sink_ok s q (callback (result d))"
    using sound_ctx [OF snd] by (simp add: ctx_base_def)
  show ?thesis
  proof (cases "ctx_at s c")
    case None
    from opl None have D: "nops (pending s) Dir_delete c = 0" by (rule no_ops_of_dead)
    from opl None have L: "nops (pending s) Leaf_delete c = 0" by (rule no_ops_of_dead)
    from snk None have K: "kids s c = 0" by (rule no_kids_of_dead)
    show ?thesis
    proof (cases "c < length (heap s)")
      case True
      with None have "gone s c" by (simp add: gone_def)
      with b e D have one: "dir_issues c (trace s) = 1" by simp
      with exhausted_of_issue [OF ord, of c] have "exhausted c (trace s)" by simp
      with one L K show ?thesis by (simp add: in_flight_def)
    next
      case False
      then have "\<not> gone s c" by (simp add: gone_def)
      with b e D have "dir_issues c (trace s) = 0" by simp
      moreover from False fam have "\<not> exhausted c (trace s)" by (simp add: family_def)
      ultimately show ?thesis by simp
    qed
  next
    case (Some d)
    then have ng: "\<not> gone s c" by (simp add: gone_def)
    from fam Some have A: "nops (pending s) Listing c = 0 \<Longrightarrow> exhausted c (trace s)"
      by (simp add: family_def)
    from fam have F: "exhausted c (trace s) \<Longrightarrow> nops (pending s) Listing c = 0"
      by (simp add: family_def)
    from sound_ctx [OF snd Some] have n: "unat (num_files_pending d) = in_flight s c"
      by (simp add: ctx_base_def in_flight_def)
    from sound_ctx [OF snd Some]
    consider "listing_phase (nops (pending s) Listing c) (nops (pending s) Dir_delete c) d"
      | "waiting_phase (nops (pending s) Listing c) (nops (pending s) Dir_delete c) d"
      | "deleting_phase (nops (pending s) Listing c) (nops (pending s) Dir_delete c) d"
      by (auto simp: ctx_phase_def)
    then show ?thesis
    proof cases
      case 1
      then have "nops (pending s) Listing c = Suc 0" "nops (pending s) Dir_delete c = 0"
        by (simp_all add: listing_phase_def)
      with F b e ng show ?thesis by auto
    next
      case 2
      then have "nops (pending s) Dir_delete c = 0" "num_files_pending d \<noteq> 0"
        by (simp_all add: waiting_phase_def)
      then have "dir_issues c (trace s) = 0" "in_flight s c \<noteq> 0"
        using b e ng n by (simp_all add: unat_eq_0 [symmetric])
      then show ?thesis by simp
    next
      case 3
      then have "nops (pending s) Listing c = 0" "nops (pending s) Dir_delete c = Suc 0"
        "num_files_pending d = 0"
        by (simp_all add: deleting_phase_def)
      with A b e ng n show ?thesis by simp
    qed
  qed
qed

section \<open>Order of deletion\<close>

text \<open>
  Claim C1. After every iteration of the main loop of a run in which no operation has failed,
  the delete of the directory of a context has been issued exactly if the listing of the
  directory has been exhausted and no child operation of the context is in flight (no leaf
  delete, and no sub-directory that has not completed): so the handlers that take a child
  operation out of flight, \<open>on_file_deleted\<close> and \<open>on_rm_rf_complete\<close>, and the one that
  sees the empty batch, issue the delete in that same iteration when it is due. In every run,
  failed or not, it has been issued exactly if the listing has been exhausted and the
  increments and decrements of \<open>num_files_pending\<close> balance. At the moment it is issued, the
  listing has been exhausted, the count is balanced and every entry that a batch has handed
  over for the directory has been deleted; and no batch is handed over after it. Siblings
  are deleted in the order their completions arrive: two schedules of the same tree delete
  \<open>a.txt\<close> before or after the directory \<open>sub\<close>.
\<close>

theorem children_deleted_before_directory:
  assumes "is_dir fs" and "wf_node fs" and "tree_size fs < 2 ^ 32"
  shows "(exit_status (g_main_loop_run fs evs (launch p prio canc)) \<noteq> Some 1 \<longrightarrow>
            (dir_issues c (record_of fs evs p prio canc) = 1) =
              (exhausted c (record_of fs evs p prio canc) \<and>
               in_flight (g_main_loop_run fs evs (launch p prio canc)) c = 0)) \<and>
         ((dir_issues c (record_of fs evs p prio canc) = 1) =
            (exhausted c (record_of fs evs p prio canc) \<and>
             count_list (record_of fs evs p prio canc) (Incr c) =
               count_list (record_of fs evs p prio canc) (Decr c))) \<and>
         (i < length (record_of fs evs p prio canc) \<and>
          record_of fs evs p prio canc ! i = Issue (Delete_file f pr k On_end_directory_deleted c) \<longrightarrow>
            exhausted c (drop (Suc i) (record_of fs evs p prio canc)) \<and>
            count_list (drop (Suc i) (record_of fs evs p prio canc)) (Incr c) =
              count_list (drop (Suc i) (record_of fs evs p prio canc)) (Decr c) \<and>
            (\<forall>g\<in>set (observed c (drop (Suc i) (record_of fs evs p prio canc))).
               deleted g (drop (Suc i) (record_of fs evs p prio canc)))) \<and>
         (j < length (record_of fs evs p prio canc) \<and>
          record_of fs evs p prio canc ! j = Done (Next_files e n pr' k' c) None \<longrightarrow>
            dir_issues c (drop (Suc j) (record_of fs evs p prio canc)) = 0) \<and>
         removals (record_of example_tree (in_order 11) (Some ''root'') 0 None) =
           [GFile (Some ''root'') [''a.txt''], GFile (Some ''root'') [''sub'', ''b.txt''],
            GFile (Some ''root'') [''sub'', ''c.txt''], GFile (Some ''root'') [''sub''],
            GFile (Some ''root'') []] \<and>
         removals (record_of example_tree
             [Ready 0 None, Ready 0 None, Ready 0 None, Ready 1 None, Ready 1 None, Ready 1 None,
              Ready 2 None, Ready 1 None, Ready 1 None, Ready 0 None, Ready 0 None]
             (Some ''root'') 0 None) =
           [GFile (Some ''root'') [''sub'', ''c.txt''], GFile (Some ''root'') [''sub'', ''b.txt''],
            GFile (Some ''root'') [''sub''], GFile (Some ''root'') [''a.txt''],
            GFile (Some ''root'') []]"
proof -
  let ?R = "g_main_loop_run fs evs (launch p prio canc)"
  let ?tr = "record_of fs evs p prio canc"
  from run_record [OF assms, of prio canc evs p]
  have ok: "record_ok fs prio canc ?tr" by (simp add: record_of_def)
  then have ord: "in_order_ok ?tr" by (simp add: record_ok_def record_base_def)
  have a0: "(dir_issues c ?tr = 1) = (exhausted c ?tr \<and> in_flight ?R c = 0)"
    if ne: "exit_status ?R \<noteq> Some 1"
  proof -
    from run_history [OF assms(2,3) launch_history [OF assms(1)], of prio canc evs p] ne
    have "sound fs 0 ?R" "chron prio canc 0 [] ?R" "record_base fs prio canc (trace ?R)"
      by (simp_all add: history_def)
    then show ?thesis unfolding record_of_def by (rule stable_issue)
  qed
  from ok have a: "(dir_issues c ?tr = 1) =
      (exhausted c ?tr \<and> count_list ?tr (Incr c) = count_list ?tr (Decr c))"
    by (simp add: record_ok_def)
  have b: "exhausted c (drop (Suc i) ?tr) \<and>
      count_list (drop (Suc i) ?tr) (Incr c) = count_list (drop (Suc i) ?tr) (Decr c) \<and>
      (\<forall>g\<in>set (observed c (drop (Suc i) ?tr)). deleted g (drop (Suc i) ?tr))"
    if "i < length ?tr" "?tr ! i = Issue (Delete_file f pr k On_end_directory_deleted c)"
    using in_order_nth [OF ord that(1)] that(2) by simp
  have c: "dir_issues c (drop (Suc j) ?tr) = 0"
    if "j < length ?tr" "?tr ! j = Done (Next_files e n pr' k' c) None"
    using in_order_nth [OF ord that(1)] that(2) by simp
  have e: "removals (record_of example_tree (in_order 11) (Some ''root'') 0 None) =
      [GFile (Some ''root'') [''a.txt''], GFile (Some ''root'') [''sub'', ''b.txt''],
       GFile (Some ''root'') [''sub'', ''c.txt''], GFile (Some ''root'') [''sub''],
       GFile (Some ''root'') []]"
    by code_simp
  have f: "removals (record_of example_tree
        [Ready 0 None, Ready 0 None, Ready 0 None, Ready 1 None, Ready 1 None, Ready 1 None,
         Ready 2 None, Ready 1 None, Ready 1 None, Ready 0 None, Ready 0 None]
        (Some ''root'') 0 None) =
      [GFile (Some ''root'') [''sub'', ''c.txt''], GFile (Some ''root'') [''sub'', ''b.txt''],
       GFile (Some ''root'') [''sub''], GFile (Some ''root'') [''a.txt''],
       GFile (Some ''root'') []]"
    by code_simp
  from a0 a b c e f show ?thesis by blast
qed

theorem children_deleted_before_directory_witness:
  "is_dir example_tree \<and> wf_node example_tree \<and> tree_size example_tree < 2 ^ 32 \<and>
   exit_status (g_main_loop_run example_tree (in_order 10) (launch (Some ''root'') 0 None)) \<noteq> Some 1 \<and>
   exhausted 0 (record_of example_tree (in_order 10) (Some ''root'') 0 None) \<and>
   in_flight (g_main_loop_run example_tree (in_order 10) (launch (Some ''root'') 0 None)) 0 = 0 \<and>
   dir_issues 0 (record_of example_tree (in_order 10) (Some ''root'') 0 None) = 1 \<and>
   record_of example_tree (in_order 10) (Some ''root'') 0 None ! 0 =
     Issue (Delete_file (GFile (Some ''root'') []) 0 None On_end_directory_deleted 0) \<and>
   record_of example_tree (in_order 10) (Some ''root'') 0 None ! 1 = Decr 0 \<and>
   record_of example_tree (in_order 10) (Some ''root'') 0 None ! 2 = Complete 1 \<and>
   exhausted 0 (drop 1 (record_of example_tree (in_order 10) (Some ''root'') 0 None)) \<and>
   count_list (drop 1 (record_of example_tree (in_order 10) (Some ''root'') 0 None)) (Incr 0) =
     count_list (drop 1 (record_of example_tree (in_order 10) (Some ''root'') 0 None)) (Decr 0) \<and>
   GFile (Some ''root'') [''sub''] \<in>
     set (observed 0 (drop 1 (record_of example_tree (in_order 10) (Some ''root'') 0 None))) \<and>
   deleted (GFile (Some ''root'') [''sub''])
     (drop 1 (record_of example_tree (in_order 10) (Some ''root'') 0 None)) \<and>
   record_of example_tree (in_order 10) (Some ''root'') 0 None ! 22 =
     Done (Next_files \<lparr>container = GFile (Some ''root'') [], remaining = []\<rparr> 20 0 None 0) None \<and>
   dir_issues 0 (drop 23 (record_of example_tree (in_order 10) (Some ''root'') 0 None)) = 0"
proof -
  let ?R = "g_main_loop_run example_tree (in_order 10) (launch (Some ''root'') 0 None)"
  let ?tr = "record_of example_tree (in_order 10) (Some ''root'') 0 None"
  have dir: "is_dir example_tree" by (simp add: example_tree_def)
  have wf: "wf_node example_tree" by (simp add: example_tree_def)
  have small: "tree_size example_tree < 2 ^ 32" by (simp add: example_tree_def)
  have ne: "exit_status ?R \<noteq> Some 1" by code_simp
  have ex: "exhausted 0 ?tr" by code_simp
  have fl: "in_flight ?R 0 = 0" by code_simp
  have l0: "0 < length ?tr" by code_simp
  have at0: "?tr ! 0 = Issue (Delete_file (GFile (Some ''root'') []) 0 None On_end_directory_deleted 0)"
    by code_simp
  have at1: "?tr ! 1 = Decr 0" by code_simp
  have at2: "?tr ! 2 = Complete 1" by code_simp
  have l22: "22 < length ?tr" by code_simp
  have at22: "?tr ! 22 =
      Done (Next_files \<lparr>container = GFile (Some ''root'') [], remaining = []\<rparr> 20 0 None 0) None"
    by code_simp
  have mem: "GFile (Some ''root'') [''sub''] \<in> set (observed 0 (drop 1 ?tr))" by code_simp
  note inst = children_deleted_before_directory [OF dir wf small,
      where evs = "in_order 10" and p = "Some ''root''" and prio = 0 and canc = None and c = 0
        and i = 0 and f = "GFile (Some ''root'') []" and pr = 0 and k = None
        and j = 22 and e = "\<lparr>container = GFile (Some ''root'') [], remaining = []\<rparr>" and n = 20
        and pr' = 0 and k' = None]
  from inst ne ex fl have one: "dir_issues 0 ?tr = 1" by simp
  from inst l0 at0 have issue: "exhausted 0 (drop 1 ?tr) \<and>
      count_list (drop 1 ?tr) (Incr 0) = count_list (drop 1 ?tr) (Decr 0) \<and>
      (\<forall>g\<in>set (observed 0 (drop 1 ?tr)). deleted g (drop 1 ?tr))"
    by simp
  with mem have del: "deleted (GFile (Some ''root'') [''sub'']) (drop 1 ?tr)" by blast
  from inst l22 at22 have "dir_issues 0 (drop 23 ?tr) = 0"
    by (simp add: eval_nat_numeral)
  with dir wf small ne ex fl one at0 at1 at2 mem del issue at22 show ?thesis by simp
qed

section \<open>Completion of a directory\<close>

text \<open>
  Claim C2 says that the completion of every directory task is called exactly once. That
  holds only of a task whose context has been freed: a run that meets an error exits in
  \<open>fatal_gerror\<close> and the completions of all tasks then alive, the top-level one among
  them, are never called. What holds in every run, for every context: the delete of its
  directory is issued at most once; its result is completed
  (\<open>g_simple_async_result_complete\<close>, which calls \<open>on_rm_rf_complete\<close> of the parent or
  \<open>on_rm_finished\<close>) at most once, only after the delete of its directory has succeeded,
  and exactly once if the context has been freed, not at all otherwise. When \<open>main\<close>
  returns 0 every context that \<open>rm_rf_async\<close> has allocated has been completed exactly once
  and the delete of its directory has been issued exactly once; when the process has exited
  with status 1 the top-level result has not been completed.
\<close>

theorem completed_at_most_once:
  assumes "is_dir fs" and "wf_node fs" and "tree_size fs < 2 ^ 32"
  shows "dir_issues c (record_of fs evs p prio canc) \<le> 1 \<and>
         count_list (record_of fs evs p prio canc) (Complete c) \<le> 1 \<and>
         (i < length (record_of fs evs p prio canc) \<and>
          record_of fs evs p prio canc ! i = Complete c \<longrightarrow>
            (\<exists>ev\<in>set (drop (Suc i) (record_of fs evs p prio canc)). dir_done c ev)) \<and>
         count_list (record_of fs evs p prio canc) (Complete c) =
           (if c < length (heap (g_main_loop_run fs evs (launch p prio canc))) \<and>
               ctx_at (g_main_loop_run fs evs (launch p prio canc)) c = None
            then 1 else 0) \<and>
         (exit_status (main_finish (g_main_loop_run fs evs (launch p prio canc))) = Some 0 \<and>
          c < length (heap (g_main_loop_run fs evs (launch p prio canc))) \<longrightarrow>
            count_list (record_of fs evs p prio canc) (Complete c) = 1 \<and>
            dir_issues c (record_of fs evs p prio canc) = 1) \<and>
         (exit_status (g_main_loop_run fs evs (launch p prio canc)) = Some 1 \<longrightarrow>
            count_list (record_of fs evs p prio canc) (Complete 0) = 0)"
proof -
  let ?R = "g_main_loop_run fs evs (launch p prio canc)"
  let ?tr = "record_of fs evs p prio canc"
  note lh = launch_history [OF assms(1), of prio canc p]
  have h: "history fs prio canc ?R" by (rule run_history [OF assms(2,3) lh])
  from run_record [OF assms, of prio canc evs p]
  have ok: "record_ok fs prio canc ?tr" by (simp add: record_of_def)
  then have ord: "in_order_ok ?tr" by (simp add: record_ok_def record_base_def)
  from ok have a: "dir_issues c ?tr \<le> 1" "count_list ?tr (Complete c) \<le> 1"
    by (simp_all add: record_ok_def)
  have b: "\<exists>ev\<in>set (drop (Suc i) ?tr). dir_done c ev"
    if "i < length ?tr" "?tr ! i = Complete c"
    using in_order_nth [OF ord that(1)] that(2) by simp
  from h have t: "count_list ?tr (Complete c) =
      (if c < length (heap ?R) \<and> ctx_at ?R c = None then 1 else 0)"
    by (simp add: history_def gone_def record_of_def)
  have c: "count_list ?tr (Complete c) = 1 \<and> dir_issues c ?tr = 1"
    if fin: "exit_status (main_finish ?R) = Some 0" and lt: "c < length (heap ?R)"
  proof -
    from fin have st: "exit_status ?R = None" "\<not> loop_running ?R"
      using h by (auto simp: finish_status history_def dest: sound_status)
    then have ne: "exit_status ?R \<noteq> Some 1" by simp
    note snd = run_stable(1) [OF assms ne] and ch = run_stable(2) [OF assms ne]
    from snd st have root: "ctx_at ?R 0 = None" by (simp add: sound_root)
    have dead: "ctx_at ?R c = None" using snd root by (rule all_dead)
    with lt have "gone ?R c" by (simp add: gone_def)
    moreover from ch have "ledger ?R" by (simp add: chron_def)
    moreover have "pending ?R = []" using snd root by (rule finished_empty)
    ultimately show ?thesis by (simp add: ledger_def record_of_def)
  qed
  have d: "count_list ?tr (Complete 0) = 0" if "exit_status ?R = Some 1"
    using run_aborting [OF assms(2,3) lh launch_aborting, of evs] that
    by (simp add: aborting_def record_of_def)
  from a b t c d show ?thesis by blast
qed

theorem completed_at_most_once_witness:
  "is_dir example_tree \<and> wf_node example_tree \<and> tree_size example_tree < 2 ^ 32 \<and>
   exit_status (main_finish (g_main_loop_run example_tree (in_order 13) (launch (Some ''root'') 0 None)))
     = Some 0 \<and>
   1 < length (heap (g_main_loop_run example_tree (in_order 13) (launch (Some ''root'') 0 None))) \<and>
   count_list (record_of example_tree (in_order 13) (Some ''root'') 0 None) (Complete 1) = 1 \<and>
   dir_issues 1 (record_of example_tree (in_order 13) (Some ''root'') 0 None) = 1 \<and>
   0 < length (record_of example_tree (in_order 13) (Some ''root'') 0 None) \<and>
   record_of example_tree (in_order 13) (Some ''root'') 0 None ! 0 = Complete 0 \<and>
   (\<exists>ev\<in>set (drop 1 (record_of example_tree (in_order 13) (Some ''root'') 0 None)). dir_done 0 ev) \<and>
   exit_status (g_main_loop_run example_tree [Ready 0 (Some ''No such file'')]
     (launch (Some ''root'') 0 None)) = Some 1 \<and>
   count_list (record_of example_tree [Ready 0 (Some ''No such file'')] (Some ''root'') 0 None)
     (Complete 0) = 0"
proof -
  let ?R = "g_main_loop_run example_tree (in_order 13) (launch (Some ''root'') 0 None)"
  let ?tr = "record_of example_tree (in_order 13) (Some ''root'') 0 None"
  let ?F = "g_main_loop_run example_tree [Ready 0 (Some ''No such file'')] (launch (Some ''root'') 0 None)"
  have dir: "is_dir example_tree" by (simp add: example_tree_def)
  have wf: "wf_node example_tree" by (simp add: example_tree_def)
  have small: "tree_size example_tree < 2 ^ 32" by (simp add: example_tree_def)
  have ex: "exit_status (main_finish ?R) = Some 0" by code_simp
  have hp: "1 < length (heap ?R)" by code_simp
  have l0: "0 < length ?tr" by code_simp
  have at0: "?tr ! 0 = Complete 0" by code_simp
  have ex1: "exit_status ?F = Some 1" by code_simp
  from completed_at_most_once [OF dir wf small, of 1 "in_order 13" "Some ''root''" 0 None 0] ex hp
  have one: "count_list ?tr (Complete 1) = 1 \<and> dir_issues 1 ?tr = 1" by simp
  from completed_at_most_once [OF dir wf small, of 0 "in_order 13" "Some ''root''" 0 None 0] l0 at0
  have dd: "\<exists>ev\<in>set (drop 1 ?tr). dir_done 0 ev" by simp
  from completed_at_most_once [OF dir wf small, of 0 "[Ready 0 (Some ''No such file'')]"
      "Some ''root''" 0 None 0] ex1
  have "count_list (record_of example_tree [Ready 0 (Some ''No such file'')] (Some ''root'') 0 None)
      (Complete 0) = 0"
    by simp
  with dir wf small ex hp one l0 at0 dd ex1 show ?thesis by simp
qed

theorem completion_not_called_after_error:
  "exit_status (main (Dir ''d'' [Regular ''f'']) [''rm'', ''d'']
      [Ready 0 None, Ready 0 None, Ready 0 None, Ready 0 (Some ''Permission denied'')]) = Some 1 \<and>
   length (heap (main (Dir ''d'' [Regular ''f'']) [''rm'', ''d'']
      [Ready 0 None, Ready 0 None, Ready 0 None, Ready 0 (Some ''Permission denied'')])) = 1 \<and>
   hd (trace (main (Dir ''d'' [Regular ''f'']) [''rm'', ''d'']
      [Ready 0 None, Ready 0 None, Ready 0 None, Ready 0 (Some ''Permission denied'')])) =
     Done (Delete_file (GFile (Some ''d'') [''f'']) 0 None On_file_deleted 0)
       (Some ''Permission denied'') \<and>
   count_list (trace (main (Dir ''d'' [Regular ''f'']) [''rm'', ''d'']
      [Ready 0 None, Ready 0 None, Ready 0 None, Ready 0 (Some ''Permission denied'')]))
     (Complete 0) = 0 \<and>
   dir_issues 0 (trace (main (Dir ''d'' [Regular ''f'']) [''rm'', ''d'']
      [Ready 0 None, Ready 0 None, Ready 0 None, Ready 0 (Some ''Permission denied'')])) = 0"
  by code_simp

section \<open>The count of pending children\<close>

text \<open>
  Claim C8 says that the counter is decremented once for every terminal outcome of a child
  operation. It is decremented when a child operation succeeds; when one fails the process
  exits in the callback and the counter is left as it was. What holds: in every run and for
  every context, \<open>num_files_pending\<close> has been decremented at most as often as incremented;
  while no operation has failed, the increments are the decrements plus the value of
  \<open>num_files_pending\<close>, and that value is the number of child operations of the context in
  flight, so the counter never wraps below zero. A decrement directly follows the success of
  a leaf delete of the context or the completion of a child directory; the dispatch of a leaf
  delete or of a child directory directly follows an increment. The failure of an operation
  decrements nothing.
\<close>

theorem pending_children_balanced:
  assumes "is_dir fs" and "wf_node fs" and "tree_size fs < 2 ^ 32"
  shows "count_list (record_of fs evs p prio canc) (Decr c) \<le>
           count_list (record_of fs evs p prio canc) (Incr c) \<and>
         (exit_status (g_main_loop_run fs evs (launch p prio canc)) \<noteq> Some 1 \<and>
          ctx_at (g_main_loop_run fs evs (launch p prio canc)) c = Some d \<longrightarrow>
            count_list (record_of fs evs p prio canc) (Incr c) =
              count_list (record_of fs evs p prio canc) (Decr c) + unat (num_files_pending d) \<and>
            unat (num_files_pending d) =
              in_flight (g_main_loop_run fs evs (launch p prio canc)) c) \<and>
         (i < length (record_of fs evs p prio canc) \<and> record_of fs evs p prio canc ! i = Decr c \<longrightarrow>
            Suc i < length (record_of fs evs p prio canc) \<and>
            ends_child c (record_of fs evs p prio canc ! Suc i)) \<and>
         (i < length (record_of fs evs p prio canc) \<and>
          record_of fs evs p prio canc ! i = Issue (Delete_file f pr k On_file_deleted c) \<longrightarrow>
            Suc i < length (record_of fs evs p prio canc) \<and>
            record_of fs evs p prio canc ! Suc i = Incr c) \<and>
         (Suc i < length (record_of fs evs p prio canc) \<and>
          record_of fs evs p prio canc ! i = Issue (Enumerate_children f attrs fl pr k c') \<longrightarrow>
            is_incr (record_of fs evs p prio canc ! Suc i)) \<and>
         (running (g_main_loop_run fs evs (launch p prio canc)) \<and>
          j < length (pending (g_main_loop_run fs evs (launch p prio canc))) \<and>
          possible fs (pending (g_main_loop_run fs evs (launch p prio canc)) ! j) (Some msg) \<longrightarrow>
            count_list
              (trace (step fs (g_main_loop_run fs evs (launch p prio canc)) (Ready j (Some msg))))
              (Decr c) =
              count_list (record_of fs evs p prio canc) (Decr c) \<and>
            heap (step fs (g_main_loop_run fs evs (launch p prio canc)) (Ready j (Some msg))) =
              heap (g_main_loop_run fs evs (launch p prio canc)))"
proof -
  let ?R = "g_main_loop_run fs evs (launch p prio canc)"
  let ?tr = "record_of fs evs p prio canc"
  from run_record [OF assms, of prio canc evs p]
  have ok: "record_ok fs prio canc ?tr" by (simp add: record_of_def)
  then have ord: "in_order_ok ?tr" by (simp add: record_ok_def record_base_def)
  from ok have a: "count_list ?tr (Decr c) \<le> count_list ?tr (Incr c)"
    by (simp add: record_ok_def)
  have b: "count_list ?tr (Incr c) = count_list ?tr (Decr c) + unat (num_files_pending d) \<and>
      unat (num_files_pending d) = in_flight ?R c"
    if ne: "exit_status ?R \<noteq> Some 1" and d: "ctx_at ?R c = Some d"
  proof -
    note snd = run_stable(1) [OF assms ne] and ch = run_stable(2) [OF assms ne]
    from ch have "ledger ?R" by (simp add: chron_def)
    then have "count_list (trace ?R) (Incr c) = count_list (trace ?R) (Decr c) + pend_of ?R c"
      by (simp add: ledger_def)
    moreover from sound_ctx [OF snd d]
    have "unat (num_files_pending d) = in_flight ?R c"
      by (simp add: ctx_base_def in_flight_def)
    ultimately show ?thesis using d by (simp add: record_of_def pend_of_def)
  qed
  have nth_hd: "Suc i < length ?tr \<and> hd (drop (Suc i) ?tr) = ?tr ! Suc i"
    if "drop (Suc i) ?tr \<noteq> []"
    using that by (simp add: hd_drop_conv_nth)
  have c: "Suc i < length ?tr \<and> ends_child c (?tr ! Suc i)"
    if "i < length ?tr" "?tr ! i = Decr c"
    using in_order_nth [OF ord that(1)] that(2) nth_hd by auto
  have e: "Suc i < length ?tr \<and> ?tr ! Suc i = Incr c"
    if "i < length ?tr" "?tr ! i = Issue (Delete_file f pr k On_file_deleted c)"
    using in_order_nth [OF ord that(1)] that(2) nth_hd by auto
  have g: "is_incr (?tr ! Suc i)"
    if "Suc i < length ?tr" "?tr ! i = Issue (Enumerate_children f attrs fl pr k c')"
  proof -
    from that(1) have "i < length ?tr" by simp
    from in_order_nth [OF ord this] that show ?thesis
      by (simp add: hd_drop_conv_nth)
  qed
  have h: "count_list (trace (step fs ?R (Ready j (Some msg)))) (Decr c) = count_list ?tr (Decr c) \<and>
      heap (step fs ?R (Ready j (Some msg))) = heap ?R"
    if run: "running ?R" and j: "j < length (pending ?R)"
      and poss: "possible fs (pending ?R ! j) (Some msg)"
  proof -
    let ?op = "pending ?R ! j"
    let ?s0 = "emit (Done ?op (Some msg))
      (?R\<lparr>pending := take j (pending ?R) @ drop (Suc j) (pending ?R)\<rparr>)"
    from run have ne: "exit_status ?R \<noteq> Some 1" by (simp add: running_def)
    note snd = run_stable(1) [OF assms ne]
    from j run poss have it: "step fs ?R (Ready j (Some msg)) = complete fs ?op (Some msg) ?s0"
      by (simp add: step_def)
    from sound_ops [OF snd, of ?op] j have "ctx_at ?s0 (op_ctx ?op) \<noteq> None"
      by (simp add: op_ok_def)
    from failure_heap [OF this, of fs msg] failing_step(3) [OF snd run j poss]
    show ?thesis by (simp add: it record_of_def)
  qed
  from a b c e g h show ?thesis by blast
qed

theorem pending_children_balanced_witness:
  "is_dir example_tree \<and> wf_node example_tree \<and> tree_size example_tree < 2 ^ 32 \<and>
   exit_status (g_main_loop_run example_tree (in_order 9) (launch (Some ''root'') 0 None)) \<noteq> Some 1 \<and>
   map_option num_files_pending
     (ctx_at (g_main_loop_run example_tree (in_order 9) (launch (Some ''root'') 0 None)) 0) = Some 1 \<and>
   count_list (record_of example_tree (in_order 9) (Some ''root'') 0 None) (Incr 0) =
     count_list (record_of example_tree (in_order 9) (Some ''root'') 0 None) (Decr 0) + 1 \<and>
   in_flight (g_main_loop_run example_tree (in_order 9) (launch (Some ''root'') 0 None)) 0 = 1 \<and>
   record_of example_tree (in_order 10) (Some ''root'') 0 None ! 1 = Decr 0 \<and>
   ends_child 0 (record_of example_tree (in_order 10) (Some ''root'') 0 None ! 2) \<and>
   record_of example_tree (in_order 10) (Some ''root'') 0 None ! 2 = Complete 1 \<and>
   record_of example_tree (in_order 9) (Some ''root'') 0 None ! 7 =
     Issue (Delete_file (GFile (Some ''root'') [''sub'', ''c.txt'']) 0 None On_file_deleted 1) \<and>
   record_of example_tree (in_order 9) (Some ''root'') 0 None ! 8 = Incr 1"
proof -
  let ?R = "g_main_loop_run example_tree (in_order 9) (launch (Some ''root'') 0 None)"
  let ?tr = "record_of example_tree (in_order 9) (Some ''root'') 0 None"
  let ?tr' = "record_of example_tree (in_order 10) (Some ''root'') 0 None"
  let ?d = "\<lparr>priority = 0, cancellable = None, num_files_pending = 1, have_more_files = False,
      ctx_file = GFile (Some ''root'') [],
      result = \<lparr>source_object = GFile (Some ''root'') [], callback = On_rm_finished,
        res_error = None\<rparr>\<rparr>"
  have dir: "is_dir example_tree" by (simp add: example_tree_def)
  have wf: "wf_node example_tree" by (simp add: example_tree_def)
  have small: "tree_size example_tree < 2 ^ 32" by (simp add: example_tree_def)
  have ne: "exit_status ?R \<noteq> Some 1" by code_simp
  have d: "ctx_at ?R 0 = Some ?d" by code_simp
  have len: "7 < length ?tr" by code_simp
  have len': "1 < length ?tr'" by code_simp
  have at1: "?tr' ! 1 = Decr 0" by code_simp
  have at2: "?tr' ! 2 = Complete 1" by code_simp
  have at10: "?tr ! 7 =
      Issue (Delete_file (GFile (Some ''root'') [''sub'', ''c.txt'']) 0 None On_file_deleted 1)"
    by code_simp
  from pending_children_balanced [OF dir wf small,
      where evs = "in_order 9" and p = "Some ''root''" and prio = 0 and canc = None and c = 0
        and d = ?d and i = 0 and j = 0 and msg = "[]" and f = "GFile None []" and pr = 0
        and k = None and attrs = "[]" and fl = G_FILE_QUERY_INFO_NOFOLLOW_SYMLINKS and c' = 0]
    ne d
  have one: "count_list ?tr (Incr 0) = count_list ?tr (Decr 0) + 1" "in_flight ?R 0 = 1"
    by auto
  from pending_children_balanced [OF dir wf small,
      where evs = "in_order 10" and p = "Some ''root''" and prio = 0 and canc = None and c = 0
        and d = ?d and i = 1 and j = 0 and msg = "[]" and f = "GFile None []" and pr = 0
        and k = None and attrs = "[]" and fl = G_FILE_QUERY_INFO_NOFOLLOW_SYMLINKS and c' = 0]
    len' at1
  have two: "ends_child 0 (?tr' ! 2)" by (auto simp: eval_nat_numeral)
  from pending_children_balanced [OF dir wf small,
      where evs = "in_order 9" and p = "Some ''root''" and prio = 0 and canc = None and c = 1
        and d = ?d and i = 7 and j = 0 and msg = "[]"
        and f = "GFile (Some ''root'') [''sub'', ''c.txt'']" and pr = 0
        and k = None and attrs = "[]" and fl = G_FILE_QUERY_INFO_NOFOLLOW_SYMLINKS and c' = 0]
    len at10
  have three: "?tr ! 8 = Incr 1" by (auto simp: eval_nat_numeral)
  from dir wf small ne d one two three at1 at2 at10 show ?thesis by simp
qed

theorem failed_child_not_counted_down:
  "exit_status (main link_tree [''rm'', ''d'']
      [Ready 0 None, Ready 0 None, Ready 0 None, Ready 0 (Some ''Permission denied'')]) = Some 1 \<and>
   hd (trace (main link_tree [''rm'', ''d'']
      [Ready 0 None, Ready 0 None, Ready 0 None, Ready 0 (Some ''Permission denied'')])) =
     Done (Delete_file (GFile (Some ''d'') [''f'']) 0 None On_file_deleted 0)
       (Some ''Permission denied'') \<and>
   count_list (trace (main link_tree [''rm'', ''d'']
      [Ready 0 None, Ready 0 None, Ready 0 None, Ready 0 (Some ''Permission denied'')])) (Incr 0) = 2 \<and>
   count_list (trace (main link_tree [''rm'', ''d'']
      [Ready 0 None, Ready 0 None, Ready 0 None, Ready 0 (Some ''Permission denied'')])) (Decr 0) = 0 \<and>
   pending (main link_tree [''rm'', ''d'']
      [Ready 0 None, Ready 0 None, Ready 0 None, Ready 0 (Some ''Permission denied'')]) =
     [Delete_file (GFile (Some ''d'') [''l'']) 0 None On_file_deleted 0] \<and>
   map_option num_files_pending (ctx_at (main link_tree [''rm'', ''d'']
      [Ready 0 None, Ready 0 None, Ready 0 None, Ready 0 (Some ''Permission denied'')]) 0) = Some 2"
  by code_simp

section \<open>Symbolic links\<close>

text \<open>
  Claim C9. In every run, every listing is opened with
  \<open>G_FILE_QUERY_INFO_NOFOLLOW_SYMLINKS\<close> and on a path at which a directory itself lies:
  no listing is ever opened on an entry that is a symbolic link, whatever the link points to,
  although GIO would list the directory behind it. An entry that is a symbolic link is
  reported as such, and \<open>dispatch_entry\<close> dispatches it as a leaf: one
  \<open>g_file_delete_async\<close> on the link itself, with \<open>on_file_deleted\<close>, and no new context.
\<close>

theorem symlink_deleted_as_leaf:
  assumes "is_dir fs" and "wf_node fs" and "tree_size fs < 2 ^ 32"
  shows "(Issue (Enumerate_children f attrs fl pr k c) \<in> set (record_of fs evs p prio canc) \<longrightarrow>
            fl = G_FILE_QUERY_INFO_NOFOLLOW_SYMLINKS \<and> is_dir_at fs (rel f)) \<and>
         (lookup fs (rel f) = Some (Symlink n t) \<longrightarrow>
            Issue (Enumerate_children f attrs fl pr k c) \<notin> set (record_of fs evs p prio canc)) \<and>
         info_type (query_info G_FILE_QUERY_INFO_NOFOLLOW_SYMLINKS (Symlink n t)) =
           G_FILE_TYPE_SYMBOLIC_LINK \<and>
         (ctx_at s c = Some d \<longrightarrow>
            pending (dispatch_entry c parent s
              (query_info G_FILE_QUERY_INFO_NOFOLLOW_SYMLINKS (Symlink n t))) =
              pending s @ [Delete_file (g_file_get_child parent n) (priority d) None On_file_deleted c] \<and>
            length (heap (dispatch_entry c parent s
              (query_info G_FILE_QUERY_INFO_NOFOLLOW_SYMLINKS (Symlink n t)))) = length (heap s))"
proof -
  let ?tr = "record_of fs evs p prio canc"
  from run_record [OF assms, of prio canc evs p]
  have ok: "record_ok fs prio canc ?tr" by (simp add: record_of_def)
  then have iss: "Issue op \<in> set ?tr \<Longrightarrow> issued_ok fs prio canc op" for op
    by (simp add: record_ok_def record_base_def)
  have a: "fl = G_FILE_QUERY_INFO_NOFOLLOW_SYMLINKS \<and> is_dir_at fs (rel f)"
    if "Issue (Enumerate_children f attrs fl pr k c) \<in> set ?tr"
    using iss [OF that] by simp
  have b: "Issue (Enumerate_children f attrs fl pr k c) \<notin> set ?tr"
    if "lookup fs (rel f) = Some (Symlink n t)"
  proof
    assume "Issue (Enumerate_children f attrs fl pr k c) \<in> set ?tr"
    from iss [OF this] that show False by simp
  qed
  have ty: "info_type (query_info G_FILE_QUERY_INFO_NOFOLLOW_SYMLINKS (Symlink n t)) =
      G_FILE_TYPE_SYMBOLIC_LINK"
    by (cases t) (simp_all add: query_info_def)
  have c: "pending (dispatch_entry c parent s
        (query_info G_FILE_QUERY_INFO_NOFOLLOW_SYMLINKS (Symlink n t))) =
        pending s @ [Delete_file (g_file_get_child parent n) (priority d) None On_file_deleted c] \<and>
      length (heap (dispatch_entry c parent s
        (query_info G_FILE_QUERY_INFO_NOFOLLOW_SYMLINKS (Symlink n t)))) = length (heap s)"
    if "ctx_at s c = Some d"
    using that ty
    by (simp add: dispatch_entry_def g_file_info_get_file_type_def
        g_file_info_get_name_def Let_def g_file_delete_async_def)
      (simp add: query_info_def)
  from a b ty c show ?thesis by blast
qed

theorem symlink_deleted_as_leaf_witness:
  "is_dir link_tree \<and> wf_node link_tree \<and> tree_size link_tree < 2 ^ 32 \<and>
   lookup link_tree [''l''] = Some (Symlink ''l'' (Some (Dir ''t'' [Regular ''x'']))) \<and>
   list_dir link_tree (GFile (Some ''d'') [''l'']) G_FILE_QUERY_INFO_NOFOLLOW_SYMLINKS =
     Some [\<lparr>info_name = ''x'', info_type = G_FILE_TYPE_REGULAR\<rparr>] \<and>
   Issue (Enumerate_children (GFile (Some ''d'') [''l'']) ''standard::name,standard::type''
      G_FILE_QUERY_INFO_NOFOLLOW_SYMLINKS 0 None 1)
     \<notin> set (record_of link_tree (in_order 6) (Some ''d'') 0 None) \<and>
   Issue (Delete_file (GFile (Some ''d'') [''l'']) 0 None On_file_deleted 0)
     \<in> set (record_of link_tree (in_order 6) (Some ''d'') 0 None) \<and>
   Issue (Enumerate_children (GFile (Some ''d'') []) ''standard::name,standard::type''
      G_FILE_QUERY_INFO_NOFOLLOW_SYMLINKS 0 None 0)
     \<in> set (record_of link_tree (in_order 6) (Some ''d'') 0 None) \<and>
   is_dir_at link_tree [] \<and>
   removals (record_of link_tree (in_order 6) (Some ''d'') 0 None) =
     [GFile (Some ''d'') [''f''], GFile (Some ''d'') [''l''], GFile (Some ''d'') []] \<and>
   exit_status (main link_tree [''rm'', ''d''] (in_order 6)) = Some 0"
proof -
  let ?tr = "record_of link_tree (in_order 6) (Some ''d'') 0 None"
  have dir: "is_dir link_tree" by (simp add: link_tree_def)
  have wf: "wf_node link_tree" by (simp add: link_tree_def)
  have small: "tree_size link_tree < 2 ^ 32" by (simp add: link_tree_def)
  have look: "lookup link_tree [''l''] = Some (Symlink ''l'' (Some (Dir ''t'' [Regular ''x''])))"
    by (simp add: link_tree_def)
  have ls: "list_dir link_tree (GFile (Some ''d'') [''l'']) G_FILE_QUERY_INFO_NOFOLLOW_SYMLINKS =
      Some [\<lparr>info_name = ''x'', info_type = G_FILE_TYPE_REGULAR\<rparr>]"
    by (simp add: link_tree_def query_info_def)
  have leaf: "Issue (Delete_file (GFile (Some ''d'') [''l'']) 0 None On_file_deleted 0) \<in> set ?tr"
    by code_simp
  have root: "Issue (Enumerate_children (GFile (Some ''d'') []) ''standard::name,standard::type''
      G_FILE_QUERY_INFO_NOFOLLOW_SYMLINKS 0 None 0) \<in> set ?tr"
    by code_simp
  have rm: "removals ?tr =
      [GFile (Some ''d'') [''f''], GFile (Some ''d'') [''l''], GFile (Some ''d'') []]"
    by code_simp
  have ex: "exit_status (main link_tree [''rm'', ''d''] (in_order 6)) = Some 0" by code_simp
  from symlink_deleted_as_leaf [OF dir wf small,
      where f = "GFile (Some ''d'') [''l'']" and n = "''l''"
        and t = "Some (Dir ''t'' [Regular ''x''])"
        and attrs = "''standard::name,standard::type''"
        and fl = G_FILE_QUERY_INFO_NOFOLLOW_SYMLINKS and pr = 0 and k = None and c = 1
        and evs = "in_order 6" and p = "Some ''d''" and prio = 0 and canc = None
        and s = init_state and parent = "GFile None []"] look
  have no: "Issue (Enumerate_children (GFile (Some ''d'') [''l'']) ''standard::name,standard::type''
      G_FILE_QUERY_INFO_NOFOLLOW_SYMLINKS 0 None 1) \<notin> set ?tr"
    by simp
  from symlink_deleted_as_leaf [OF dir wf small,
      where f = "GFile (Some ''d'') []" and attrs = "''standard::name,standard::type''"
        and fl = G_FILE_QUERY_INFO_NOFOLLOW_SYMLINKS and pr = 0 and k = None and c = 0
        and evs = "in_order 6" and p = "Some ''d''" and prio = 0 and canc = None
        and s = init_state and parent = "GFile None []" and n = "[]" and t = None] root
  have "is_dir_at link_tree (rel (GFile (Some ''d'') []))"
    by simp
  then have "is_dir_at link_tree []" by simp
  with dir wf small look ls no leaf root rm ex show ?thesis by simp
qed

lemma batch_dispatched_append:
  "batch_dispatched c fs X \<Longrightarrow> batch_dispatched c gs Y \<Longrightarrow> batch_dispatched c (fs @ gs) (X @ Y)"
  by (induction c fs X rule: batch_dispatched.induct) simp_all

lemma dispatch_trace:
  assumes d: "ctx_at s c = Some d"
  shows "\<exists>ev. trace (dispatch_entry c parent s i) = ev # Incr c # trace s \<and>
           dispatches (g_file_get_child parent (info_name i)) ev \<and>
           ctx_at (dispatch_entry c parent s i) c \<noteq> None \<and>
           set (pending s) \<subseteq> set (pending (dispatch_entry c parent s i))"
proof -
  have lt: "c < length (heap s)" using d by (rule ctx_at_lt)
  show ?thesis
    using d lt
    by (auto simp: dispatch_entry_def Let_def g_file_delete_async_def first_listing_def
        g_file_info_get_name_def)
qed

lemma dispatch_loop_trace:
  "ctx_at s c = Some d \<Longrightarrow>
   \<exists>X. trace (foldl (dispatch_entry c parent) s files) = X @ trace s \<and>
       length X = 2 * length files \<and>
       batch_dispatched c (rev (map (\<lambda>i. g_file_get_child parent (info_name i)) files)) X \<and>
       set (pending s) \<subseteq> set (pending (foldl (dispatch_entry c parent) s files))"
proof (induction files arbitrary: s d)
  case Nil
  then show ?case by simp
next
  case (Cons i files)
  let ?s1 = "dispatch_entry c parent s i"
  from dispatch_trace [OF Cons.prems, of parent i]
  obtain ev where tr1: "trace ?s1 = ev # Incr c # trace s"
    and ev: "dispatches (g_file_get_child parent (info_name i)) ev"
    and live: "ctx_at ?s1 c \<noteq> None"
    and sub: "set (pending s) \<subseteq> set (pending ?s1)"
    by blast
  from live obtain d1 where "ctx_at ?s1 c = Some d1" by auto
  from Cons.IH [OF this]
  obtain X where X: "trace (foldl (dispatch_entry c parent) ?s1 files) = X @ trace ?s1"
    "length X = 2 * length files"
    "batch_dispatched c (rev (map (\<lambda>i. g_file_get_child parent (info_name i)) files)) X"
    "set (pending ?s1) \<subseteq> set (pending (foldl (dispatch_entry c parent) ?s1 files))"
    by blast
  have one: "batch_dispatched c [g_file_get_child parent (info_name i)] [ev, Incr c]"
    using ev by simp
  have "trace (foldl (dispatch_entry c parent) s (i # files)) = (X @ [ev, Incr c]) @ trace s"
    using X(1) tr1 by simp
  moreover have "length (X @ [ev, Incr c]) = 2 * length (i # files)" using X(2) by simp
  moreover have "batch_dispatched c
      (rev (map (\<lambda>i. g_file_get_child parent (info_name i)) (i # files))) (X @ [ev, Incr c])"
    using batch_dispatched_append [OF X(3) one] by simp
  moreover have "set (pending s) \<subseteq> set (pending (foldl (dispatch_entry c parent) s (i # files)))"
    using sub X(4) by simp
  ultimately show ?case by blast
qed

section \<open>Batches of a listing\<close>

text \<open>
  Claim C6 says that the next batch is requested after the entries of a batch have been
  dispatched. \<open>on_next_files\<close> does it the other way round: given a batch that is not empty
  it first requests the next batch and then runs the loop that increments
  \<open>num_files_pending\<close> and dispatches each entry. So, for every call of \<open>on_next_files\<close>
  with a batch that is not empty: the record of the call is the request of the next batch
  and then, for each entry in the order of the batch, an increment and the dispatch of the
  entry; the request is still in flight when the callback returns, so its batch is delivered
  by a later iteration of the main loop, after all those dispatches. An empty batch requests
  nothing and clears \<open>have_more_files\<close>. In every run a batch is requested directly after
  the opening of the listing or a batch that was not empty has been delivered, before
  anything else is done, and every leaf delete is issued directly after an increment.
\<close>

theorem next_batch_requested_first:
  assumes "is_dir fs" and "wf_node fs" and "tree_size fs < 2 ^ 32"
  shows "(i < length (record_of fs evs p prio canc) \<and>
          record_of fs evs p prio canc ! i = Issue (Next_files e n pr k c) \<longrightarrow>
            Suc i < length (record_of fs evs p prio canc) \<and>
            hands_over c (record_of fs evs p prio canc ! Suc i)) \<and>
         (i < length (record_of fs evs p prio canc) \<and>
          record_of fs evs p prio canc ! i = Issue (Delete_file f pr k On_file_deleted c) \<longrightarrow>
            Suc i < length (record_of fs evs p prio canc) \<and>
            record_of fs evs p prio canc ! Suc i = Incr c) \<and>
         (ctx_at s c = Some d \<and> files \<noteq> [] \<longrightarrow>
            drop (2 * length files) (trace (on_next_files e' (Inr files) c s)) =
              Issue (Next_files e' 20 G_PRIORITY_DEFAULT None c) # trace s \<and>
            batch_dispatched c
              (rev (map (\<lambda>i. g_file_get_child (container e') (info_name i)) files))
              (take (2 * length files) (trace (on_next_files e' (Inr files) c s))) \<and>
            Next_files e' 20 G_PRIORITY_DEFAULT None c \<in>
              set (pending (on_next_files e' (Inr files) c s))) \<and>
         (ctx_at s c = Some d \<longrightarrow>
            nops (pending (on_next_files e' (Inr []) c s)) Listing c = nops (pending s) Listing c \<and>
            map_option have_more_files (ctx_at (on_next_files e' (Inr []) c s) c) = Some False)"
proof -
  let ?tr = "record_of fs evs p prio canc"
  from run_record [OF assms, of prio canc evs p]
  have ok: "record_ok fs prio canc ?tr" by (simp add: record_of_def)
  then have ord: "in_order_ok ?tr" by (simp add: record_ok_def record_base_def)
  have nth_hd: "Suc i < length ?tr \<and> hd (drop (Suc i) ?tr) = ?tr ! Suc i"
    if "drop (Suc i) ?tr \<noteq> []"
    using that by (simp add: hd_drop_conv_nth)
  have a: "Suc i < length ?tr \<and> hands_over c (?tr ! Suc i)"
    if "i < length ?tr" "?tr ! i = Issue (Next_files e n pr k c)"
    using in_order_nth [OF ord that(1)] that(2) nth_hd by auto
  have b: "Suc i < length ?tr \<and> ?tr ! Suc i = Incr c"
    if "i < length ?tr" "?tr ! i = Issue (Delete_file f pr k On_file_deleted c)"
    using in_order_nth [OF ord that(1)] that(2) nth_hd by auto
  have c: "drop (2 * length files) (trace (on_next_files e' (Inr files) c s)) =
        Issue (Next_files e' 20 G_PRIORITY_DEFAULT None c) # trace s \<and>
      batch_dispatched c
        (rev (map (\<lambda>i. g_file_get_child (container e') (info_name i)) files))
        (take (2 * length files) (trace (on_next_files e' (Inr files) c s))) \<and>
      Next_files e' 20 G_PRIORITY_DEFAULT None c \<in>
        set (pending (on_next_files e' (Inr files) c s))"
    if d: "ctx_at s c = Some d" and ne: "files \<noteq> []"
  proof -
    let ?new = "Next_files e' 20 G_PRIORITY_DEFAULT None c"
    let ?s1 = "issue ?new (modify c (\<lambda>x. x\<lparr>have_more_files := True\<rparr>) s)"
    have eq: "on_next_files e' (Inr files) c s = foldl (dispatch_entry c (container e')) ?s1 files"
      by (rule batch_shape [OF d ne])
    have "ctx_at ?s1 c = Some (d\<lparr>have_more_files := True\<rparr>)" using d by simp
    from dispatch_loop_trace [OF this, of "container e'" files]
    obtain X where X: "trace (foldl (dispatch_entry c (container e')) ?s1 files) = X @ trace ?s1"
      "length X = 2 * length files"
      "batch_dispatched c (rev (map (\<lambda>i. g_file_get_child (container e') (info_name i)) files)) X"
      "set (pending ?s1) \<subseteq> set (pending (foldl (dispatch_entry c (container e')) ?s1 files))"
      by blast
    have "?new \<in> set (pending ?s1)" by simp
    with X show ?thesis by (auto simp: eq)
  qed
  have e: "nops (pending (on_next_files e' (Inr []) c s)) Listing c = nops (pending s) Listing c \<and>
      map_option have_more_files (ctx_at (on_next_files e' (Inr []) c s) c) = Some False"
    if d: "ctx_at s c = Some d"
    using d
    by (simp add: on_next_files_def next_files_head_def g_file_enumerator_close_def
        check_no_children_def g_file_delete_async_def)
  from a b c e show ?thesis by blast
qed

theorem next_batch_requested_first_witness:
  "is_dir link_tree \<and> wf_node link_tree \<and> tree_size link_tree < 2 ^ 32 \<and>
   record_of link_tree (in_order 2) (Some ''d'') 0 None ! 4 =
     Issue (Next_files \<lparr>container = GFile (Some ''d'') [], remaining = []\<rparr> 20 0 None 0) \<and>
   hands_over 0 (record_of link_tree (in_order 2) (Some ''d'') 0 None ! 5) \<and>
   record_of link_tree (in_order 2) (Some ''d'') 0 None ! 0 =
     Issue (Delete_file (GFile (Some ''d'') [''l'']) 0 None On_file_deleted 0) \<and>
   record_of link_tree (in_order 2) (Some ''d'') 0 None ! 1 = Incr 0 \<and>
   ctx_at (launch (Some ''d'') 0 None) 0 \<noteq> None \<and>
   drop 2 (trace (on_next_files \<lparr>container = GFile (Some ''d'') [], remaining = []\<rparr>
       (Inr [\<lparr>info_name = ''f'', info_type = G_FILE_TYPE_REGULAR\<rparr>]) 0
       (launch (Some ''d'') 0 None))) =
     Issue (Next_files \<lparr>container = GFile (Some ''d'') [], remaining = []\<rparr> 20 0 None 0) #
     trace (launch (Some ''d'') 0 None) \<and>
   Next_files \<lparr>container = GFile (Some ''d'') [], remaining = []\<rparr> 20 0 None 0 \<in>
     set (pending (on_next_files \<lparr>container = GFile (Some ''d'') [], remaining = []\<rparr>
       (Inr [\<lparr>info_name = ''f'', info_type = G_FILE_TYPE_REGULAR\<rparr>]) 0
       (launch (Some ''d'') 0 None)))"
proof -
  let ?tr = "record_of link_tree (in_order 2) (Some ''d'') 0 None"
  let ?e = "\<lparr>container = GFile (Some ''d'') [], remaining = []\<rparr>"
  let ?d = "\<lparr>priority = 0, cancellable = None, num_files_pending = 0, have_more_files = False,
      ctx_file = GFile (Some ''d'') [],
      result = \<lparr>source_object = GFile (Some ''d'') [], callback = On_rm_finished,
        res_error = None\<rparr>\<rparr>"
  have dir: "is_dir link_tree" by (simp add: link_tree_def)
  have wf: "wf_node link_tree" by (simp add: link_tree_def)
  have small: "tree_size link_tree < 2 ^ 32" by (simp add: link_tree_def)
  have len: "4 < length ?tr" by code_simp
  have at4: "?tr ! 4 = Issue (Next_files ?e 20 0 None 0)" by code_simp
  have at0: "?tr ! 0 = Issue (Delete_file (GFile (Some ''d'') [''l'']) 0 None On_file_deleted 0)"
    by code_simp
  have d: "ctx_at (launch (Some ''d'') 0 None) 0 = Some ?d" by code_simp
  note inst = next_batch_requested_first [OF dir wf small,
      where evs = "in_order 2" and p = "Some ''d''" and prio = 0 and canc = None and c = 0
        and e = ?e and n = 20 and pr = 0 and k = None and f = "GFile (Some ''d'') [''l'']"
        and s = "launch (Some ''d'') 0 None" and d = ?d and e' = ?e
        and files = "[\<lparr>info_name = ''f'', info_type = G_FILE_TYPE_REGULAR\<rparr>]"]
  from inst [where i = 4] len at4 have a: "hands_over 0 (?tr ! 5)"
    by (auto simp: eval_nat_numeral)
  from inst [where i = 0] len at0 have b: "?tr ! 1 = Incr 0" by auto
  from inst [where i = 0] d
  have c: "drop 2 (trace (on_next_files ?e
        (Inr [\<lparr>info_name = ''f'', info_type = G_FILE_TYPE_REGULAR\<rparr>]) 0
        (launch (Some ''d'') 0 None))) =
      Issue (Next_files ?e 20 0 None 0) # trace (launch (Some ''d'') 0 None)"
    "Next_files ?e 20 0 None 0 \<in>
      set (pending (on_next_files ?e
        (Inr [\<lparr>info_name = ''f'', info_type = G_FILE_TYPE_REGULAR\<rparr>]) 0
        (launch (Some ''d'') 0 None)))"
    by (auto simp: G_PRIORITY_DEFAULT_def)
  from dir wf small at4 at0 a b c d show ?thesis by simp
qed

theorem next_batch_requested_before_dispatch:
  "record_of link_tree (in_order 2) (Some ''d'') 0 None =
     [Issue (Delete_file (GFile (Some ''d'') [''l'']) 0 None On_file_deleted 0),
      Incr 0,
      Issue (Delete_file (GFile (Some ''d'') [''f'']) 0 None On_file_deleted 0),
      Incr 0,
      Issue (Next_files \<lparr>container = GFile (Some ''d'') [], remaining = []\<rparr> 20 0 None 0),
      Done (Next_files \<lparr>container = GFile (Some ''d'') [],
              remaining = [\<lparr>info_name = ''f'', info_type = G_FILE_TYPE_REGULAR\<rparr>,
                           \<lparr>info_name = ''l'', info_type = G_FILE_TYPE_SYMBOLIC_LINK\<rparr>]\<rparr>
            20 0 None 0) None,
      Issue (Next_files \<lparr>container = GFile (Some ''d'') [],
              remaining = [\<lparr>info_name = ''f'', info_type = G_FILE_TYPE_REGULAR\<rparr>,
                           \<lparr>info_name = ''l'', info_type = G_FILE_TYPE_SYMBOLIC_LINK\<rparr>]\<rparr>
            20 0 None 0),
      Done (Enumerate_children (GFile (Some ''d'') []) ''standard::name,standard::type''
              G_FILE_QUERY_INFO_NOFOLLOW_SYMLINKS 0 None 0) None,
      Issue (Enumerate_children (GFile (Some ''d'') []) ''standard::name,standard::type''
              G_FILE_QUERY_INFO_NOFOLLOW_SYMLINKS 0 None 0)]"
  by code_simp

section \<open>The cancellable\<close>




section \<open>The script against the C program\<close>


lemma count_of_zero [simp]: "count_of 0 = 0"
  by (simp add: count_of_def)





lemma sim_emit [simp]: "sim j (emit ev s) = sim j s"
  by (simp add: sim_def)

lemma sim_fields [simp]:
  "sim j (s\<lparr>stdout := out\<rparr>) = sim j s" "sim j (s\<lparr>timer := b\<rparr>) = sim j s"
  by (simp_all add: sim_def ctx_at_def)






















lemma js_check_counters [simp]:
  "numFilesDeleted (checkNoChildren c j) = numFilesDeleted j"
  "numDirsDeleted (checkNoChildren c j) = numDirsDeleted j"
  by (simp_all add: checkNoChildren_def js_issue_def)

lemma js_modify_counters [simp]:
  "numFilesDeleted (js_modify c f j) = numFilesDeleted j"
  "numDirsDeleted (js_modify c f j) = numDirsDeleted j"
  by (simp_all add: js_modify_def)

lemma js_dispatch_counters [simp]:
  "numFilesDeleted (js_dispatch c parent j i) = numFilesDeleted j"
  "numDirsDeleted (js_dispatch c parent j i) = numDirsDeleted j"
  by (simp_all add: js_dispatch_def rmRfAsync_def js_issue_def Let_def)

lemma js_dispatch_loop_counters [simp]:
  "numFilesDeleted (foldl (js_dispatch c parent) j files) = numFilesDeleted j"
  "numDirsDeleted (foldl (js_dispatch c parent) j files) = numDirsDeleted j"
  by (induction files arbitrary: j) simp_all



section \<open>The deletion counter\<close>




text \<open>
  When the path is a symbolic link to a directory, GIO lists the directory through the
  link: the program deletes the entries of the directory and then the link itself, and
  counts each of them.
\<close>

lemma link_to_directory_listed:
  "exit_status (main (Symlink ''root'' (Some example_tree)) [''rm'', ''root''] (in_order 13)) =
     Some 0 \<and>
   unat (files_deleted (main (Symlink ''root'' (Some example_tree)) [''rm'', ''root'']
     (in_order 13))) = 5"
  by code_simp

end
